theory Spec2Isabelle
  imports Main "HOL-Library.Word"
begin

unbundle bit_operations_syntax

section \<open>Bytes, errors and byte sources\<close>

text \<open>
  A Go \<^verbatim>\<open>[]byte\<close> is a list of 8-bit words. Go error values are the constructors of
  \<open>error\<close>: the sentinels the package tests with \<^verbatim>\<open>errors.Is\<close> and an opaque
  \<open>Other\<close> for whatever an underlying reader, writer or closer reports. A runtime
  panic is not an error value: functions that can panic return a \<open>failure\<close>.
\<close>

type_synonym byte = "8 word"

datatype error =
    EOF
  | ErrUnexpectedEOF
  | ErrTooLong
  | ErrOverflow
  | InvalidArgErr
  | NoFrameFoundErr
  | Other string

datatype failure = Error error | Panic

definition bytes_of :: "string \<Rightarrow> byte list" where
  "bytes_of s = map of_char s"

text \<open>Package \<^verbatim>\<open>unit\<close>.\<close>

definition Byte :: nat where
  "Byte = 1"

definition Kibibyte :: nat where
  "Kibibyte = Byte * 1024"

definition Mebibyte :: nat where
  "Mebibyte = Kibibyte * 1024"

text \<open>
  An \<^verbatim>\<open>io.Reader\<close> is the bytes it still has to deliver and the error it reports
  once they are used up: \<open>None\<close> for a reader that ends with \<^verbatim>\<open>io.EOF\<close> (a file, a
  \<^verbatim>\<open>bytes.Buffer\<close>), \<open>Some e\<close> for one that breaks with \<open>e\<close>.
\<close>

record source =
  pending :: "byte list"
  fault :: "error option"

definition Read_err :: "source \<Rightarrow> error" where
  "Read_err s = (case fault s of None \<Rightarrow> EOF | Some e \<Rightarrow> e)"

text \<open>
  \<^verbatim>\<open>io.ReadFull(r, buf)\<close> with \<open>len(buf) = n\<close>: the bytes read and the error. It
  reads until the buffer is full; a reader that ends after some but not all of the bytes
  gives \<^verbatim>\<open>io.ErrUnexpectedEOF\<close>, one that ends before the first byte \<^verbatim>\<open>io.EOF\<close>.
\<close>

definition ReadFull :: "source \<Rightarrow> nat \<Rightarrow> (byte list \<times> error option) \<times> source" where
  "ReadFull s n =
     (if n \<le> length (pending s)
      then ((take n (pending s), None), s\<lparr>pending := drop n (pending s)\<rparr>)
      else ((pending s,
             Some (if 0 < length (pending s) \<and> Read_err s = EOF then ErrUnexpectedEOF
                   else Read_err s)),
            s\<lparr>pending := []\<rparr>))"

text \<open>
  \<^verbatim>\<open>make([]byte, n)\<close> panics when \<open>n\<close> is negative or beyond the runtime's
  \<^verbatim>\<open>maxAlloc\<close> (2^48 bytes on 64-bit platforms); within that limit the allocation is
  taken to succeed. The result is the length of the new slice.
\<close>

definition maxAlloc :: nat where
  "maxAlloc = 2 ^ 48"

definition make_bytes :: "int \<Rightarrow> failure + nat" where
  "make_bytes n = (if n < 0 \<or> int maxAlloc < n then Inl Panic else Inr (nat n))"

text \<open>\<^verbatim>\<open>bytes.IndexByte\<close> and \<^verbatim>\<open>bytes.LastIndexByte\<close>: \<open>-1\<close> when the byte is absent.\<close>

definition IndexByte :: "byte list \<Rightarrow> byte \<Rightarrow> int" where
  "IndexByte b c =
     (if c \<in> set b then int (length (takeWhile (\<lambda>x. x \<noteq> c) b)) else - 1)"

definition LastIndexByte :: "byte list \<Rightarrow> byte \<Rightarrow> int" where
  "LastIndexByte s c =
     (if c \<in> set s
      then int (length s) - 1 - int (length (takeWhile (\<lambda>x. x \<noteq> c) (rev s)))
      else - 1)"

section \<open>Newline-delimited frame reader (io/frame.go)\<close>

text \<open>
  \<^verbatim>\<open>bufio.ScanLines\<close> and its helper \<^verbatim>\<open>dropCR\<close>: the number of bytes to advance
  and the token, \<open>None\<close> when more data is requested.
\<close>

definition dropCR :: "byte list \<Rightarrow> byte list" where
  "dropCR data = (if 0 < length data \<and> last data = 0x0D then butlast data else data)"

definition ScanLines :: "byte list \<Rightarrow> bool \<Rightarrow> nat \<times> byte list option" where
  "ScanLines data atEOF =
     (if atEOF \<and> length data = 0 then (0, None)
      else if 0 \<le> IndexByte data 0x0A
      then (nat (IndexByte data 0x0A) + 1, Some (dropCR (take (nat (IndexByte data 0x0A)) data)))
      else if atEOF then (length data, Some (dropCR data))
      else (0, None))"

text \<open>
  One \<^verbatim>\<open>Scanner.Scan\<close> over an in-memory input, for the scanner that
  \<^verbatim>\<open>NewNewlineDelimitedFrameReader\<close> sets up: \<^verbatim>\<open>scanner.Buffer(buf, 0)\<close> with a buffer
  of \<open>Mebibyte\<close> bytes and a maximum token size of 0, so the buffer never grows. The
  scanner sees at most a buffer's worth of the unread input; when the split function finds
  no token there and the buffer is full, the scan stops with \<^verbatim>\<open>bufio.ErrTooLong\<close>; when the
  input ends first, the split function is called once more at end of input.
\<close>

datatype scan = Token "byte list" "byte list" | Stop "error option"

definition Scan :: "byte list \<Rightarrow> scan" where
  "Scan inp =
     (case ScanLines (take Mebibyte inp) False of
        (advance, Some token) \<Rightarrow> Token token (drop advance inp)
      | (_, None) \<Rightarrow>
          if length inp < Mebibyte
          then (case ScanLines inp True of
                  (advance, Some token) \<Rightarrow> Token token (drop advance inp)
                | (_, None) \<Rightarrow> Stop None)
          else Stop (Some ErrTooLong))"

text \<open>
  The state of the closure \<^verbatim>\<open>NewNewlineDelimitedFrameReader(r, skipEmpty)\<close> returns:
  the unread input of the scanner and the flag. A \<^verbatim>\<open>FrameReader\<close>'s \<^verbatim>\<open>Read\<close> gives
  a failure, or the frame and the reader's next state; no caller in the package reads
  again after a failure.
\<close>

record lineReader =
  input :: "byte list"
  skipEmpty :: bool

definition NewNewlineDelimitedFrameReader :: "byte list \<Rightarrow> bool \<Rightarrow> lineReader" where
  "NewNewlineDelimitedFrameReader data skip = \<lparr>input = data, skipEmpty = skip\<rparr>"

function lineReader_Read :: "lineReader \<Rightarrow> failure + (byte list \<times> lineReader)" where
  "lineReader_Read fr =
     (case Scan (input fr) of
        Stop err \<Rightarrow> Inl (Error (case err of None \<Rightarrow> EOF | Some e \<Rightarrow> e))
      | Token line rest \<Rightarrow>
          if skipEmpty fr \<and> length line = 0 then lineReader_Read (fr\<lparr>input := rest\<rparr>)
          else Inr (line, fr\<lparr>input := rest\<rparr>))"
  by pat_completeness auto
termination
  by (relation "measure (\<lambda>fr. length (input fr))")
    (auto simp: Scan_def ScanLines_def IndexByte_def
      split: if_splits prod.splits option.splits
      dest!: in_set_takeD length_pos_if_in_set)

section \<open>Chunk reader\<close>

text \<open>
  \<^verbatim>\<open>delimitedChunker\<close>: the field \<^verbatim>\<open>r\<close> is \<open>rd\<close> here, \<open>None\<close> for \<^verbatim>\<open>nil\<close>.
  \<^verbatim>\<open>io.MultiReader\<close> over in-memory readers delivers the concatenation of their bytes.
\<close>

record delimitedChunker =
  rd :: "source option"
  delimiter :: byte
  chunkSize :: int
  prev :: "byte list"

definition MultiReader :: "byte list list \<Rightarrow> byte list" where
  "MultiReader buffers = concat buffers"

definition NewNewlineDelimitedChunkReader :: "source option \<Rightarrow> int \<Rightarrow> error + delimitedChunker" where
  "NewNewlineDelimitedChunkReader reader n =
     (if n < 0 then Inl InvalidArgErr
      else if reader = None then Inl InvalidArgErr
      else Inr \<lparr>rd = reader, delimiter = 0x0A, chunkSize = n, prev = []\<rparr>)"

text \<open>
  The second half of \<^verbatim>\<open>NextChunk\<close> (from \<^verbatim>\<open>var buffers []io.Reader\<close> on): \<open>c\<close> is
  the chunker after the read, \<open>buf\<close> the bytes read.
\<close>

definition NextChunk_cut :: "delimitedChunker \<Rightarrow> byte list \<Rightarrow> (failure + lineReader) \<times> delimitedChunker" where
  "NextChunk_cut c buf =
     (let buffers = (if 0 < length (prev c) then [prev c] else []);
          c1 = (if 0 < length (prev c) then c\<lparr>prev := []\<rparr> else c);
          pos = LastIndexByte buf (delimiter c)
      in if pos = - 1
         then (if int (length buf) = chunkSize c then (Inl (Error NoFrameFoundErr), c1)
               else (Inr (NewNewlineDelimitedFrameReader (MultiReader (buffers @ [buf])) True), c1))
         else (Inr (NewNewlineDelimitedFrameReader
                      (MultiReader (buffers @ [take (nat pos) buf])) True),
               c1\<lparr>prev := drop (nat pos) buf\<rparr>))"

definition NextChunk :: "delimitedChunker \<Rightarrow> (failure + lineReader) \<times> delimitedChunker" where
  "NextChunk c =
     (case rd c of
        None \<Rightarrow> (Inl (Error EOF), c)
      | Some src \<Rightarrow>
          (case make_bytes (chunkSize c) of
             Inl p \<Rightarrow> (Inl p, c)
           | Inr n \<Rightarrow>
               (case ReadFull src n of
                  ((buf, None), src') \<Rightarrow> NextChunk_cut (c\<lparr>rd := Some src'\<rparr>) buf
                | ((buf, Some err), src') \<Rightarrow>
                    if err = ErrUnexpectedEOF \<or> err = EOF
                    then NextChunk_cut (c\<lparr>rd := None\<rparr>) buf
                    else (Inl (Error err), c\<lparr>rd := Some src'\<rparr>))))"


text \<open>
  \<^verbatim>\<open>ReadAllChunks\<close> takes any \<^verbatim>\<open>ChunkReader\<close>, here its \<^verbatim>\<open>NextChunk\<close> method and
  its state. The loop ends only when the chunker reports \<^verbatim>\<open>io.EOF\<close> or fails, so it is a
  partial function: \<open>None\<close> when it never returns.
\<close>

partial_function (option) ReadAllChunks_loop ::
  "('c \<Rightarrow> (failure + 'fr) \<times> 'c) \<Rightarrow> 'c \<Rightarrow> 'fr list \<Rightarrow> (failure + 'fr list) option" where
  "ReadAllChunks_loop nextChunk chunker readers =
     (case nextChunk chunker of
        (Inl e, chunker') \<Rightarrow> if e = Error EOF then Some (Inr readers) else Some (Inl e)
      | (Inr reader, chunker') \<Rightarrow> ReadAllChunks_loop nextChunk chunker' (readers @ [reader]))"

definition ReadAllChunks ::
  "('c \<Rightarrow> (failure + 'fr) \<times> 'c) \<Rightarrow> 'c \<Rightarrow> (failure + 'fr list) option" where
  "ReadAllChunks nextChunk chunker = ReadAllChunks_loop nextChunk chunker []"

section \<open>Composition of frame readers (io/frame.go)\<close>

text \<open>
  \<^verbatim>\<open>multiFrameReader.Read\<close> over readers that share one \<^verbatim>\<open>Read\<close> method, and
  \<^verbatim>\<open>ReadAllFrames\<close> over any \<^verbatim>\<open>FrameReader\<close>, a partial function as well. Frames are
  values here: the copy \<^verbatim>\<open>ReadAllFrames\<close> makes of each frame is the frame.
\<close>

fun multiFrameReader_Read ::
  "('r \<Rightarrow> failure + (byte list \<times> 'r)) \<Rightarrow> 'r list \<Rightarrow> failure + (byte list \<times> 'r list)" where
  "multiFrameReader_Read read [] = Inl (Error EOF)"
| "multiFrameReader_Read read (r # readers) =
     (case read r of
        Inl e \<Rightarrow> if e = Error EOF then multiFrameReader_Read read readers else Inl e
      | Inr (frame, r') \<Rightarrow> Inr (frame, r' # readers))"

definition MultiFrameReader :: "'r list \<Rightarrow> 'r list" where
  "MultiFrameReader readers = readers"

partial_function (option) ReadAllFrames_loop ::
  "('r \<Rightarrow> failure + (byte list \<times> 'r)) \<Rightarrow> 'r \<Rightarrow> byte list list \<Rightarrow> (failure + byte list list) option" where
  "ReadAllFrames_loop read r frames =
     (case read r of
        Inl e \<Rightarrow> if e = Error EOF then Some (Inr frames) else Some (Inl e)
      | Inr (frame, r') \<Rightarrow> ReadAllFrames_loop read r' (frames @ [frame]))"

definition ReadAllFrames ::
  "('r \<Rightarrow> failure + (byte list \<times> 'r)) \<Rightarrow> 'r \<Rightarrow> (failure + byte list list) option" where
  "ReadAllFrames read r = ReadAllFrames_loop read r []"

section \<open>Length-prefixed frames (io/frame.go)\<close>

text \<open>
  \<^verbatim>\<open>binary.PutUvarint\<close> writes into the slice it is given; an index past its end panics.
\<close>

definition MaxVarintLen32 :: nat where
  "MaxVarintLen32 = 5"

definition MaxVarintLen64 :: nat where
  "MaxVarintLen64 = 10"

function PutUvarint_loop :: "byte list \<Rightarrow> 64 word \<Rightarrow> nat \<Rightarrow> failure + (byte list \<times> nat)" where
  "PutUvarint_loop buf x i =
     (if 0x80 \<le> x
      then (if i < length buf
            then PutUvarint_loop (buf[i := ucast x OR 0x80]) (drop_bit 7 x) (i + 1)
            else Inl Panic)
      else if i < length buf then Inr (buf[i := ucast x], i + 1)
      else Inl Panic)"
  by pat_completeness auto
termination
proof (relation "measure (\<lambda>(buf, x, i). unat x)")
  show "wf (measure (\<lambda>(buf, x, i). unat x))"
    by simp
next
  fix buf :: "byte list" and x :: "64 word" and i :: nat
  assume "0x80 \<le> x"
  then have "128 \<le> unat x"
    by (simp add: word_le_nat_alt)
  moreover have "unat (drop_bit 7 x) = unat x div 2 ^ 7"
    by (simp add: drop_bit_eq_div unat_div)
  ultimately have "unat (drop_bit 7 x) < unat x"
    by simp
  then show "((buf[i := ucast x OR 0x80], drop_bit 7 x, i + 1), buf, x, i)
      \<in> measure (\<lambda>(buf, x, i). unat x)"
    by simp
qed

definition PutUvarint :: "byte list \<Rightarrow> 64 word \<Rightarrow> failure + (byte list \<times> nat)" where
  "PutUvarint buf x = PutUvarint_loop buf x 0"

text \<open>
  An \<^verbatim>\<open>io.Writer\<close>: the bytes written so far, and for a writer that breaks, how many
  more bytes it accepts and the error it then reports.
\<close>

record sink =
  written :: "byte list"
  limit :: "(nat \<times> error) option"

definition Writer_Write :: "sink \<Rightarrow> byte list \<Rightarrow> (nat \<times> error option) \<times> sink" where
  "Writer_Write w p =
     (case limit w of
        None \<Rightarrow> ((length p, None), w\<lparr>written := written w @ p\<rparr>)
      | Some (k, e) \<Rightarrow>
          if length p \<le> k
          then ((length p, None), w\<lparr>written := written w @ p, limit := Some (k - length p, e)\<rparr>)
          else ((k, Some e), w\<lparr>written := written w @ take k p, limit := Some (0, e)\<rparr>))"

text \<open>The closure of \<^verbatim>\<open>NewVarLenFrameWriter\<close>: the writer and the array \<^verbatim>\<open>buf\<close>.\<close>

record varLenWriter =
  vw :: sink
  vbuf :: "byte list"

definition NewVarLenFrameWriter :: "sink \<Rightarrow> varLenWriter" where
  "NewVarLenFrameWriter w = \<lparr>vw = w, vbuf = replicate MaxVarintLen32 0\<rparr>"

definition varLenWriter_Write ::
  "varLenWriter \<Rightarrow> byte list \<Rightarrow> failure + ((nat \<times> error option) \<times> varLenWriter)" where
  "varLenWriter_Write fw payload =
     (case PutUvarint (vbuf fw) (of_nat (length payload)) of
        Inl p \<Rightarrow> Inl p
      | Inr (buf, encodedLength) \<Rightarrow>
          (case Writer_Write (vw fw) (take encodedLength buf) of
             ((sync, Some e), w') \<Rightarrow> Inr ((sync, Some e), \<lparr>vw = w', vbuf = buf\<rparr>)
           | ((sync, None), w') \<Rightarrow>
               (case Writer_Write w' payload of
                  ((n, e), w'') \<Rightarrow> Inr ((n + sync, e), \<lparr>vw = w'', vbuf = buf\<rparr>))))"

text \<open>
  \<^verbatim>\<open>bufio.Reader.ReadByte\<close> and \<^verbatim>\<open>binary.ReadUvarint\<close> (as of Go 1.19, where the end
  of input inside a value is \<^verbatim>\<open>io.ErrUnexpectedEOF\<close>).
\<close>

definition ReadByte :: "source \<Rightarrow> (error + byte) \<times> source" where
  "ReadByte s =
     (case pending s of
        [] \<Rightarrow> (Inl (Read_err s), s)
      | b # bs \<Rightarrow> (Inr b, s\<lparr>pending := bs\<rparr>))"

function ReadUvarint_loop ::
  "source \<Rightarrow> 64 word \<Rightarrow> nat \<Rightarrow> nat \<Rightarrow> (64 word \<times> error option) \<times> source" where
  "ReadUvarint_loop s x sh i =
     (if i < MaxVarintLen64
      then (case ReadByte s of
              (Inl e, s') \<Rightarrow> ((x, Some (if 0 < i \<and> e = EOF then ErrUnexpectedEOF else e)), s')
            | (Inr b, s') \<Rightarrow>
                if b < 0x80
                then (if i = MaxVarintLen64 - 1 \<and> 1 < b then ((x, Some ErrOverflow), s')
                      else ((x OR push_bit sh (ucast b), None), s'))
                else ReadUvarint_loop s' (x OR push_bit sh (ucast (b AND 0x7f))) (sh + 7) (i + 1))
      else ((x, Some ErrOverflow), s))"
  by pat_completeness auto
termination
  by (relation "measure (\<lambda>(s, x, sh, i). MaxVarintLen64 - i)") auto

definition ReadUvarint :: "source \<Rightarrow> (64 word \<times> error option) \<times> source" where
  "ReadUvarint s = ReadUvarint_loop s 0 0 0"

text \<open>
  The closure of \<^verbatim>\<open>NewVarLenFrameReader\<close>: the buffered reader and the capacity of the
  reusable slice \<^verbatim>\<open>buf\<close>, which grows to the largest payload read.
\<close>

definition varlenFrameReaderBufferSize :: nat where
  "varlenFrameReaderBufferSize = 256"

record varLenReader =
  bufReader :: source
  bufcap :: nat

definition NewVarLenFrameReader :: "source \<Rightarrow> varLenReader" where
  "NewVarLenFrameReader s = \<lparr>bufReader = s, bufcap = varlenFrameReaderBufferSize\<rparr>"

definition varLenReader_Read :: "varLenReader \<Rightarrow> failure + (byte list \<times> varLenReader)" where
  "varLenReader_Read fr =
     (case ReadUvarint (bufReader fr) of
        ((_, Some e), _) \<Rightarrow> Inl (Error e)
      | ((payloadLen, None), s') \<Rightarrow>
          (case (if bufcap fr < unat payloadLen then make_bytes (uint payloadLen)
                 else Inr (bufcap fr)) of
             Inl p \<Rightarrow> Inl p
           | Inr cap' \<Rightarrow>
               (case ReadFull s' (unat payloadLen) of
                  ((_, Some e), _) \<Rightarrow>
                    if e = EOF then Inl (Error ErrUnexpectedEOF) else Inl (Error e)
                | ((payload, None), s'') \<Rightarrow>
                    Inr (payload, \<lparr>bufReader = s'', bufcap = cap'\<rparr>))))"

section \<open>Closers (io/shim.go)\<close>

text \<open>
  An \<^verbatim>\<open>io.Closer\<close> acts on the world it closes over and returns \<^verbatim>\<open>nil\<close> (\<open>None\<close>) or
  an error. \<^verbatim>\<open>chainedCloser.Close\<close> is the loop over \<^verbatim>\<open>w.cs\<close>; the embedded writer
  takes no part in it.
\<close>

type_synonym 'w closer = "'w \<Rightarrow> error option \<times> 'w"

record ('w, 'x) chainedCloser =
  Writer :: 'x
  cs :: "'w closer list"

definition NewChainedCloser :: "'x \<Rightarrow> 'w closer list \<Rightarrow> ('w, 'x) chainedCloser" where
  "NewChainedCloser w closers = \<lparr>Writer = w, cs = closers\<rparr>"

fun Close_each :: "'w closer list \<Rightarrow> 'w \<Rightarrow> error option \<times> 'w" where
  "Close_each [] world = (None, world)"
| "Close_each (c # rest) world =
     (case c world of
        (Some e, world') \<Rightarrow> (Some e, world')
      | (None, world') \<Rightarrow> Close_each rest world')"

definition chainedCloser_Close :: "('w, 'x) chainedCloser \<Rightarrow> 'w \<Rightarrow> error option \<times> 'w" where
  "chainedCloser_Close wc world = Close_each (cs wc) world"

text \<open>
  \<^verbatim>\<open>closeOnce\<close>: \<open>once\<close> is the done flag of the \<^verbatim>\<open>sync.Once\<close>, which runs the
  function of the first \<^verbatim>\<open>Do\<close> and none after it. Calls are taken one after another, the
  order in which the \<^verbatim>\<open>sync.Once\<close> serialises them.
\<close>

record 'w closeOnce =
  closer :: "'w closer"
  err :: "error option"
  once :: bool

definition SafeCloser :: "'w closer \<Rightarrow> 'w closeOnce" where
  "SafeCloser c = \<lparr>closer = c, err = None, once = False\<rparr>"

definition closeOnce_Close :: "'w closeOnce \<Rightarrow> 'w \<Rightarrow> error option \<times> 'w closeOnce \<times> 'w" where
  "closeOnce_Close c world =
     (if once c then (err c, c, world)
      else (case closer c world of
              (e, world') \<Rightarrow> (e, c\<lparr>err := e, once := True\<rparr>, world')))"

text \<open>\<open>n\<close> successive calls of \<^verbatim>\<open>Close\<close> on one wrapper: the results, in call order.\<close>

fun Close_times :: "nat \<Rightarrow> 'w closeOnce \<Rightarrow> 'w \<Rightarrow> error option list \<times> 'w closeOnce \<times> 'w" where
  "Close_times 0 c world = ([], c, world)"
| "Close_times (Suc n) c world =
     (case closeOnce_Close c world of
        (e, c', world') \<Rightarrow>
          (case Close_times n c' world' of (es, c'', world'') \<Rightarrow> (e # es, c'', world'')))"

text \<open>
  A closer that records its own invocation, as the closers of \<^verbatim>\<open>TestChainedCloser\<close> do:
  the world is extended with the list of the closers invoked so far.
\<close>

definition recording :: "nat \<Rightarrow> 'w closer \<Rightarrow> ('w \<times> nat list) closer" where
  "recording i c = (\<lambda>(world, calls). case c world of (e, world') \<Rightarrow> (e, (world', calls @ [i])))"

fun recording_from :: "nat \<Rightarrow> 'w closer list \<Rightarrow> ('w \<times> nat list) closer list" where
  "recording_from i [] = []"
| "recording_from i (c # rest) = recording i c # recording_from (Suc i) rest"

text \<open>
  The worlds a list of closers passes through when each one is invoked in turn, whatever
  it returns: entry \<open>j\<close> is the world closer \<open>j\<close> is invoked in, the last entry the
  world after all of them. Closer \<open>j\<close> fails there when
  \<open>fst ((closers ! j) (worlds closers w ! j))\<close> is an error.
\<close>

fun worlds :: "'w closer list \<Rightarrow> 'w \<Rightarrow> 'w list" where
  "worlds [] world = [world]"
| "worlds (c # rest) world = world # worlds rest (snd (c world))"

section \<open>Functions used to state the properties\<close>

text \<open>
  The lines of a stream, as \<^verbatim>\<open>bytes.Split(s, "\n")\<close> gives them: the bytes between the
  delimiters, a trailing carriage return included. The list is never empty (lemma
  \<open>lines_of_not_Nil\<close>), so its head and tail are those of a list.
\<close>

fun lines_of :: "byte list \<Rightarrow> byte list list" where
  "lines_of [] = [[]]"
| "lines_of (b # bs) =
     (if b = 0x0A then [] # lines_of bs
      else (b # hd (lines_of bs)) # tl (lines_of bs))"

text \<open>
  The part of a stream behind its last full window of \<open>n\<close> bytes: what the chunker's last,
  short read delivers.
\<close>

definition last_window :: "nat \<Rightarrow> byte list \<Rightarrow> byte list" where
  "last_window n s = drop (length s - length s mod n) s"

text \<open>
  All the frames a line reader that skips empty lines takes from an input, scan by scan,
  or the error that ends it; \<open>frames_append\<close> joins two such results, the first failure
  winning. Lemma \<open>ReadAllFrames_lineReader\<close> below shows that this is what
  \<^verbatim>\<open>ReadAllFrames\<close> returns for such a reader.
\<close>

function frames_of :: "byte list \<Rightarrow> failure + byte list list" where
  "frames_of inp =
     (case Scan inp of
        Stop e \<Rightarrow>
          (case e of
             None \<Rightarrow> Inr []
           | Some e' \<Rightarrow> if e' = EOF then Inr [] else Inl (Error e'))
      | Token line rest \<Rightarrow>
          (case frames_of rest of
             Inl f \<Rightarrow> Inl f
           | Inr fs \<Rightarrow> Inr (if line = [] then fs else line # fs)))"
  by pat_completeness auto
termination
  by (relation "measure length")
    (auto simp: Scan_def ScanLines_def IndexByte_def
      split: if_splits prod.splits option.splits
      dest!: in_set_takeD length_pos_if_in_set)

fun frames_append :: "failure + byte list list \<Rightarrow> failure + byte list list \<Rightarrow> failure + byte list list" where
  "frames_append (Inl f) _ = Inl f"
| "frames_append (Inr a) (Inl f) = Inl f"
| "frames_append (Inr a) (Inr b) = Inr (a @ b)"

fun frames_concat :: "byte list list \<Rightarrow> failure + byte list list" where
  "frames_concat [] = Inr []"
| "frames_concat (d # ds) = frames_append (frames_of d) (frames_concat ds)"

text \<open>
  The unsigned varint of a 64-bit value, seven bits to a byte, low bits first, the high
  bit set on every byte but the last: what \<^verbatim>\<open>binary.PutUvarint\<close> writes when the slice
  has room for it (lemma \<open>PutUvarint_loop_eq\<close>). \<open>frame_bytes\<close> is one length-prefixed
  frame on the wire.
\<close>

function uvarint :: "64 word \<Rightarrow> byte list" where
  "uvarint x = (if 0x80 \<le> x then (ucast x OR 0x80) # uvarint (drop_bit 7 x) else [ucast x])"
  by pat_completeness auto
termination
proof (relation "measure unat")
  show "wf (measure (unat :: 64 word \<Rightarrow> nat))"
    by simp
next
  fix x :: "64 word"
  assume "0x80 \<le> x"
  then have "128 \<le> unat x"
    by (simp add: word_le_nat_alt)
  moreover have "unat (drop_bit 7 x) = unat x div 2 ^ 7"
    by (simp add: drop_bit_eq_div unat_div)
  ultimately have "unat (drop_bit 7 x) < unat x"
    by simp
  then show "(drop_bit 7 x, x) \<in> measure unat"
    by simp
qed

definition frame_bytes :: "byte list \<Rightarrow> byte list" where
  "frame_bytes p = uvarint (of_nat (length p)) @ p"

text \<open>
  Writing payloads one after the other, as the loop of \<^verbatim>\<open>basicTestFraming\<close> in
  frame_test.go does: it stops at the first panic or error.
\<close>

fun write_frames :: "varLenWriter \<Rightarrow> byte list list \<Rightarrow> failure + (error option \<times> varLenWriter)" where
  "write_frames fw [] = Inr (None, fw)"
| "write_frames fw (p # ps) =
     (case varLenWriter_Write fw p of
        Inl f \<Rightarrow> Inl f
      | Inr ((n, Some e), fw') \<Rightarrow> Inr (Some e, fw')
      | Inr ((n, None), fw') \<Rightarrow> write_frames fw' ps)"

section \<open>Properties of the chunk reader's single steps\<close>

declare lineReader_Read.simps [simp del]
declare PutUvarint_loop.simps [simp del]
declare ReadUvarint_loop.simps [simp del]
declare frames_of.simps [simp del]
declare uvarint.simps [simp del]

lemma takeWhile_neq_shorter: "c \<in> set xs \<Longrightarrow> length (takeWhile (\<lambda>x. x \<noteq> c) xs) < length xs"
  by (induction xs) auto

lemma LastIndexByte_absent: "c \<notin> set s \<Longrightarrow> LastIndexByte s c = - 1"
  by (simp add: LastIndexByte_def)

lemma LastIndexByte_present:
  assumes "c \<in> set s"
  shows "0 \<le> LastIndexByte s c \<and> nat (LastIndexByte s c) < length s
    \<and> s ! nat (LastIndexByte s c) = c
    \<and> c \<notin> set (drop (Suc (nat (LastIndexByte s c))) s)"
proof -
  let ?k = "length (takeWhile (\<lambda>x. x \<noteq> c) (rev s))"
  have krev: "?k < length (rev s)"
    using assms takeWhile_neq_shorter[of c "rev s"] by simp
  then have k: "?k < length s" by simp
  have L: "LastIndexByte s c = int (length s) - 1 - int ?k"
    using assms by (simp add: LastIndexByte_def)
  have N: "nat (LastIndexByte s c) = length s - 1 - ?k" using k L by simp
  have "rev s ! ?k = c"
    using krev nth_length_takeWhile[of "\<lambda>x. x \<noteq> c" "rev s"] by simp
  then have A: "s ! nat (LastIndexByte s c) = c"
    using k N by (simp add: rev_nth)
  have "Suc (length s - 1 - ?k) = length s - ?k"
    using k by arith
  then have "drop (Suc (nat (LastIndexByte s c))) s = rev (take ?k (rev s))"
    using N by (simp add: take_rev)
  also have "take ?k (rev s) = takeWhile (\<lambda>x. x \<noteq> c) (rev s)"
    using takeWhile_eq_take[of "\<lambda>x. x \<noteq> c" "rev s"] by simp
  finally have B: "c \<notin> set (drop (Suc (nat (LastIndexByte s c))) s)"
    by (auto dest: set_takeWhileD)
  show ?thesis using k L N A B by simp
qed

lemma ReadFull_full:
  "ReadFull s n = ((buf, None), s') \<Longrightarrow> length buf = n \<and> buf = take n (pending s) \<and> s' = s\<lparr>pending := drop n (pending s)\<rparr>"
  by (auto simp: ReadFull_def split: if_splits)

lemma ReadFull_short:
  "ReadFull s n = ((buf, Some e), s') \<Longrightarrow> length buf < n \<and> buf = pending s \<and> s' = s\<lparr>pending := []\<rparr>"
  by (auto simp: ReadFull_def split: if_splits)

lemma make_bytes_Inr: "make_bytes k = Inr n \<Longrightarrow> 0 \<le> k \<and> k = int n \<and> n \<le> maxAlloc"
  by (auto simp: make_bytes_def split: if_splits)

text \<open>
  C3 does not hold as stated: the constructor rejects only a negative chunk size (and a
  \<^verbatim>\<open>nil\<close> reader), so a chunk size of zero is accepted.
\<close>

theorem NewNewlineDelimitedChunkReader_zero:
  "NewNewlineDelimitedChunkReader (Some \<lparr>pending = [], fault = None\<rparr>) 0 =
     Inr \<lparr>rd = Some \<lparr>pending = [], fault = None\<rparr>, delimiter = 0x0A, chunkSize = 0, prev = []\<rparr>
   \<and> NewNewlineDelimitedChunkReader (Some \<lparr>pending = [], fault = None\<rparr>) 0 \<noteq> Inl InvalidArgErr"
  by (simp add: NewNewlineDelimitedChunkReader_def)

text \<open>
  C3, amended: for every reader argument and every negative chunk size, and for a
  \<^verbatim>\<open>nil\<close> reader with any chunk size, \<^verbatim>\<open>NewNewlineDelimitedChunkReader\<close> returns the
  "invalid argument" error and no chunker; for every chunk size that is zero or positive
  and every non-nil reader it succeeds, with the delimiter set to the newline byte and an
  empty carry buffer.
\<close>

theorem NewNewlineDelimitedChunkReader_result:
  "NewNewlineDelimitedChunkReader reader n =
     (if n < 0 \<or> reader = None then Inl InvalidArgErr
      else Inr \<lparr>rd = reader, delimiter = 0x0A, chunkSize = n, prev = []\<rparr>)"
  by (simp add: NewNewlineDelimitedChunkReader_def)

text \<open>
  C4: in a \<^verbatim>\<open>NextChunk\<close> call whose read filled the whole buffer of \<open>chunkSize\<close> bytes
  (\<^verbatim>\<open>io.ReadFull\<close> reported no error) and found no delimiter among them, the call fails
  with \<open>NoFrameFoundErr\<close> and returns no chunk; when the read was short (\<^verbatim>\<open>io.EOF\<close> or
  \<^verbatim>\<open>io.ErrUnexpectedEOF\<close>) and holds no delimiter, the call returns a chunk whose
  content is the carry buffer followed by the bytes read, unchanged, and leaves the
  chunker exhausted with an empty carry buffer, so that chunk is the final one.
\<close>

theorem NextChunk_no_delimiter:
  assumes "rd c = Some src" and "make_bytes (chunkSize c) = Inr n"
    and "ReadFull src n = ((buf, e), src')" and "delimiter c \<notin> set buf"
  shows "(e = None \<longrightarrow> fst (NextChunk c) = Inl (Error NoFrameFoundErr))
    \<and> (e = Some EOF \<or> e = Some ErrUnexpectedEOF \<longrightarrow>
         NextChunk c = (Inr \<lparr>input = prev c @ buf, skipEmpty = True\<rparr>, c\<lparr>rd := None, prev := []\<rparr>))"
proof (intro conjI impI)
  assume "e = None"
  then have "int (length buf) = chunkSize c"
    using assms(2,3) by (auto dest!: ReadFull_full make_bytes_Inr)
  then show "fst (NextChunk c) = Inl (Error NoFrameFoundErr)"
    using assms \<open>e = None\<close>
    by (simp add: NextChunk_def NextChunk_cut_def LastIndexByte_absent Let_def)
next
  assume short: "e = Some EOF \<or> e = Some ErrUnexpectedEOF"
  then obtain e' where e': "e = Some e'" "e' = EOF \<or> e' = ErrUnexpectedEOF" by auto
  then have "int (length buf) \<noteq> chunkSize c"
    using assms(2,3) by (auto dest!: ReadFull_short make_bytes_Inr)
  then show "NextChunk c = (Inr \<lparr>input = prev c @ buf, skipEmpty = True\<rparr>, c\<lparr>rd := None, prev := []\<rparr>)"
    using assms e'
    by (auto simp: NextChunk_def NextChunk_cut_def LastIndexByte_absent Let_def
        NewNewlineDelimitedFrameReader_def MultiReader_def)
qed

theorem NextChunk_no_delimiter_witness:
  "fst (NextChunk \<lparr>rd = Some \<lparr>pending = bytes_of ''abcd'', fault = None\<rparr>, delimiter = 0x0A,
                    chunkSize = 4, prev = []\<rparr>) = Inl (Error NoFrameFoundErr)
   \<and> NextChunk \<lparr>rd = Some \<lparr>pending = bytes_of ''ab'', fault = None\<rparr>, delimiter = 0x0A,
                 chunkSize = 4, prev = [0x0A, 0x78]\<rparr>
     = (Inr \<lparr>input = [0x0A, 0x78] @ bytes_of ''ab'', skipEmpty = True\<rparr>,
        \<lparr>rd = None, delimiter = 0x0A, chunkSize = 4, prev = []\<rparr>)"
proof -
  let ?full = "\<lparr>rd = Some \<lparr>pending = bytes_of ''abcd'', fault = None\<rparr>, delimiter = 0x0A,
                 chunkSize = 4, prev = []\<rparr>"
  let ?short = "\<lparr>rd = Some \<lparr>pending = bytes_of ''ab'', fault = None\<rparr>, delimiter = 0x0A,
                  chunkSize = 4, prev = [0x0A, 0x78]\<rparr>"
  have m: "make_bytes 4 = Inr 4"
    by (simp add: make_bytes_def maxAlloc_def)
  have f1: "ReadFull \<lparr>pending = bytes_of ''abcd'', fault = None\<rparr> 4
      = ((bytes_of ''abcd'', None), \<lparr>pending = [], fault = None\<rparr>)"
    by (simp add: ReadFull_def bytes_of_def)
  have f2: "ReadFull \<lparr>pending = bytes_of ''ab'', fault = None\<rparr> 4
      = ((bytes_of ''ab'', Some ErrUnexpectedEOF), \<lparr>pending = [], fault = None\<rparr>)"
    by (simp add: ReadFull_def bytes_of_def Read_err_def)
  have d1: "delimiter ?full \<notin> set (bytes_of ''abcd'')"
    by (simp add: bytes_of_def)
  have d2: "delimiter ?short \<notin> set (bytes_of ''ab'')"
    by (simp add: bytes_of_def)
  have A: "fst (NextChunk ?full) = Inl (Error NoFrameFoundErr)"
    using NextChunk_no_delimiter[of ?full _ 4 "bytes_of ''abcd''" None, OF _ _ _ d1] m f1 by simp
  have B: "NextChunk ?short = (Inr \<lparr>input = prev ?short @ bytes_of ''ab'', skipEmpty = True\<rparr>,
       ?short\<lparr>rd := None, prev := []\<rparr>)"
    using NextChunk_no_delimiter[of ?short _ 4 "bytes_of ''ab''" "Some ErrUnexpectedEOF", OF _ _ _ d2] m f2
    by simp
  show ?thesis using A B by simp
qed

lemma Mebibyte_pos: "0 < Mebibyte"
  by (simp add: Mebibyte_def Kibibyte_def Byte_def)

lemma Scan_leading_newline: "Scan (0x0A # x) = Token [] x"
proof -
  obtain m where m: "Mebibyte = Suc m"
    using Mebibyte_pos by (cases Mebibyte) auto
  show ?thesis
    by (simp add: Scan_def ScanLines_def IndexByte_def dropCR_def m)
qed

lemma lineReader_Read_leading_newline:
  "lineReader_Read \<lparr>input = 0x0A # x, skipEmpty = True\<rparr> =
   lineReader_Read \<lparr>input = x, skipEmpty = True\<rparr>"
  by (subst lineReader_Read.simps) (simp add: Scan_leading_newline)

lemma NextChunk_skipEmpty: "fst (NextChunk c) = Inr fr \<Longrightarrow> skipEmpty fr"
  by (auto simp: NextChunk_def NextChunk_cut_def Let_def NewNewlineDelimitedFrameReader_def
      split: option.splits sum.splits prod.splits if_splits)

text \<open>
  C10: in every \<^verbatim>\<open>NextChunk\<close> call of a chunker whose delimiter is the newline byte, when
  the bytes just read (a full or a short read) hold a delimiter, the call returns a chunk
  whose content is the old carry buffer followed by the bytes before the last delimiter
  read, that delimiter excluded; the new carry buffer is not empty and begins with the
  delimiter; the chunk's reader skips empty lines; and a reader that skips empty lines
  reads the same from the carry buffer followed by any further bytes as from those bytes
  without the leading delimiter: the empty line is discarded, never returned as a frame.
\<close>

theorem NextChunk_delimiter_found:
  assumes "rd c = Some src" and "make_bytes (chunkSize c) = Inr n"
    and "ReadFull src n = ((buf, e), src')"
    and "e = None \<or> e = Some EOF \<or> e = Some ErrUnexpectedEOF"
    and "delimiter c = 0x0A" and "delimiter c \<in> set buf"
  shows "\<exists>pos carry fr c'.
           NextChunk c = (Inr fr, c')
         \<and> pos < length buf \<and> buf ! pos = 0x0A \<and> 0x0A \<notin> set (drop (Suc pos) buf)
         \<and> input fr = prev c @ take pos buf \<and> skipEmpty fr
         \<and> prev c' = 0x0A # carry \<and> buf = take pos buf @ 0x0A # carry
         \<and> (\<forall>more. lineReader_Read \<lparr>input = prev c' @ more, skipEmpty = True\<rparr>
                    = lineReader_Read \<lparr>input = carry @ more, skipEmpty = True\<rparr>)"
proof -
  let ?pos = "nat (LastIndexByte buf 0x0A)"
  have in_buf: "0x0A \<in> set buf" using assms(5,6) by simp
  note P = LastIndexByte_present[OF in_buf]
  have pos: "?pos < length buf" "buf ! ?pos = 0x0A" "0x0A \<notin> set (drop (Suc ?pos) buf)"
    and nonneg: "LastIndexByte buf 0x0A \<noteq> - 1"
    using P by auto
  have split: "buf = take ?pos buf @ 0x0A # drop (Suc ?pos) buf"
    using pos(1,2) id_take_nth_drop[of ?pos buf] by simp
  have carry: "drop ?pos buf = 0x0A # drop (Suc ?pos) buf"
    using pos(1,2) Cons_nth_drop_Suc[of ?pos buf] by simp
  have cut: "\<And>c0. delimiter c0 = 0x0A \<Longrightarrow> prev c0 = prev c \<Longrightarrow>
      \<exists>c'. NextChunk_cut c0 buf = (Inr \<lparr>input = prev c @ take ?pos buf, skipEmpty = True\<rparr>, c')
         \<and> prev c' = drop ?pos buf"
    using nonneg
    by (auto simp: NextChunk_cut_def Let_def NewNewlineDelimitedFrameReader_def MultiReader_def)
  have "\<exists>c'. NextChunk c = (Inr \<lparr>input = prev c @ take ?pos buf, skipEmpty = True\<rparr>, c')
         \<and> prev c' = drop ?pos buf"
    using assms(1-5) cut[of "c\<lparr>rd := Some src'\<rparr>"] cut[of "c\<lparr>rd := None\<rparr>"]
    by (auto simp: NextChunk_def)
  then obtain c' where c': "NextChunk c = (Inr \<lparr>input = prev c @ take ?pos buf, skipEmpty = True\<rparr>, c')"
      "prev c' = drop ?pos buf" by blast
  show ?thesis
    using c' pos split carry
    by (intro exI[of _ ?pos] exI[of _ "drop (Suc ?pos) buf"]
        exI[of _ "\<lparr>input = prev c @ take ?pos buf, skipEmpty = True\<rparr>"] exI[of _ c'])
      (simp add: lineReader_Read_leading_newline)
qed

theorem NextChunk_delimiter_found_witness:
  "\<exists>pos carry fr c'.
     NextChunk \<lparr>rd = Some \<lparr>pending = bytes_of ''ab'' @ [0x0A] @ bytes_of ''cd'', fault = None\<rparr>,
                 delimiter = 0x0A, chunkSize = 4, prev = [0x0A]\<rparr> = (Inr fr, c')
     \<and> pos < length (bytes_of ''ab'' @ [0x0A] @ bytes_of ''c'')
     \<and> (bytes_of ''ab'' @ [0x0A] @ bytes_of ''c'') ! pos = 0x0A
     \<and> 0x0A \<notin> set (drop (Suc pos) (bytes_of ''ab'' @ [0x0A] @ bytes_of ''c''))
     \<and> input fr = [0x0A] @ take pos (bytes_of ''ab'' @ [0x0A] @ bytes_of ''c'') \<and> skipEmpty fr
     \<and> prev c' = 0x0A # carry
     \<and> bytes_of ''ab'' @ [0x0A] @ bytes_of ''c''
         = take pos (bytes_of ''ab'' @ [0x0A] @ bytes_of ''c'') @ 0x0A # carry
     \<and> (\<forall>more. lineReader_Read \<lparr>input = prev c' @ more, skipEmpty = True\<rparr>
                = lineReader_Read \<lparr>input = carry @ more, skipEmpty = True\<rparr>)"
proof -
  let ?c = "\<lparr>rd = Some \<lparr>pending = bytes_of ''ab'' @ [0x0A] @ bytes_of ''cd'', fault = None\<rparr>,
                 delimiter = 0x0A, chunkSize = 4, prev = [0x0A]\<rparr>"
  let ?buf = "bytes_of ''ab'' @ [0x0A] @ bytes_of ''c''"
  have r: "rd ?c = Some \<lparr>pending = bytes_of ''ab'' @ [0x0A] @ bytes_of ''cd'', fault = None\<rparr>"
    by simp
  have m: "make_bytes (chunkSize ?c) = Inr 4"
    by (simp add: make_bytes_def maxAlloc_def)
  have f: "ReadFull \<lparr>pending = bytes_of ''ab'' @ [0x0A] @ bytes_of ''cd'', fault = None\<rparr> 4
      = ((?buf, None), \<lparr>pending = bytes_of ''d'', fault = None\<rparr>)"
    by (simp add: ReadFull_def bytes_of_def)
  have d: "delimiter ?c \<in> set ?buf" and d': "delimiter ?c = 0x0A"
    by simp_all
  have p: "prev ?c = [0x0A]"
    by simp
  show ?thesis
    using NextChunk_delimiter_found[OF r m f _ d' d] unfolding p by simp
qed

section \<open>The frames of a stream and of its chunks\<close>

subsection \<open>What the line reader yields\<close>

lemma takeWhile_take_present:
  "c \<in> set (take n xs) \<Longrightarrow> takeWhile (\<lambda>x. x \<noteq> c) (take n xs) = takeWhile (\<lambda>x. x \<noteq> c) xs"
  using takeWhile_append1[of c "take n xs" "\<lambda>x. x \<noteq> c" "drop n xs"] by simp

lemma takeWhile_take_absent:
  assumes "c \<notin> set (take n xs)" and "n \<le> length xs"
  shows "n \<le> length (takeWhile (\<lambda>x. x \<noteq> c) xs)"
proof -
  have "takeWhile (\<lambda>x. x \<noteq> c) (take n xs @ drop n xs)
      = take n xs @ takeWhile (\<lambda>x. x \<noteq> c) (drop n xs)"
    using assms(1) by (intro takeWhile_append2) auto
  then have "length (takeWhile (\<lambda>x. x \<noteq> c) xs) = n + length (takeWhile (\<lambda>x. x \<noteq> c) (drop n xs))"
    using assms(2) by simp
  then show ?thesis by simp
qed

lemma takeWhile_absent: "c \<notin> set xs \<Longrightarrow> takeWhile (\<lambda>x. x \<noteq> c) xs = xs"
  by (induction xs) auto

lemma dropWhile_absent: "c \<notin> set xs \<Longrightarrow> dropWhile (\<lambda>x. x \<noteq> c) xs = []"
  by (induction xs) auto

lemma takeWhile_upto: "c \<notin> set xs \<Longrightarrow> takeWhile (\<lambda>x. x \<noteq> c) (xs @ c # ys) = xs"
  by (induction xs) auto

lemma dropWhile_upto: "c \<notin> set xs \<Longrightarrow> dropWhile (\<lambda>x. x \<noteq> c) (xs @ c # ys) = c # ys"
  by (induction xs) auto

lemma Scan_eq:
  "Scan inp =
     (if inp = [] then Stop None
      else if length (takeWhile (\<lambda>x. x \<noteq> 0x0A) inp) < Mebibyte
      then Token (dropCR (takeWhile (\<lambda>x. x \<noteq> 0x0A) inp)) (tl (dropWhile (\<lambda>x. x \<noteq> 0x0A) inp))
      else Stop (Some ErrTooLong))"
proof (cases "0x0A \<in> set (take Mebibyte inp)")
  case True
  let ?i = "length (takeWhile (\<lambda>x. x \<noteq> 0x0A) inp)"
  have tw: "takeWhile (\<lambda>x. x \<noteq> 0x0A) (take Mebibyte inp) = takeWhile (\<lambda>x. x \<noteq> 0x0A) inp"
    using True by (rule takeWhile_take_present)
  have "?i < length (take Mebibyte inp)"
    using takeWhile_neq_shorter[OF True] tw by simp
  then have i: "?i < Mebibyte" "?i < length inp" by simp_all
  have ne: "inp \<noteq> []" using True by auto
  have t: "take ?i (take Mebibyte inp) = takeWhile (\<lambda>x. x \<noteq> 0x0A) inp"
    using i takeWhile_eq_take[of "\<lambda>x. x \<noteq> 0x0A" inp] by (simp add: min_def)
  have d: "drop (Suc ?i) inp = tl (dropWhile (\<lambda>x. x \<noteq> 0x0A) inp)"
    using dropWhile_eq_drop[of "\<lambda>x. x \<noteq> 0x0A" inp] by (simp add: drop_Suc tl_drop)
  show ?thesis
    using True i ne t d tw by (simp add: Scan_def ScanLines_def IndexByte_def)
next
  case False
  show ?thesis
  proof (cases "length inp < Mebibyte")
    case True
    then have inp: "take Mebibyte inp = inp" by simp
    then have no: "0x0A \<notin> set inp" using False by simp
    show ?thesis
      using True no
      by (simp add: Scan_def ScanLines_def IndexByte_def inp takeWhile_absent dropWhile_absent)
  next
    case long: False
    then have "Mebibyte \<le> length (takeWhile (\<lambda>x. x \<noteq> 0x0A) inp)"
      using False by (intro takeWhile_take_absent) simp_all
    moreover have "inp \<noteq> []" using long Mebibyte_pos by auto
    ultimately show ?thesis
      using False long by (simp add: Scan_def ScanLines_def IndexByte_def)
  qed
qed

lemma frames_of_Nil: "frames_of [] = Inr []"
  by (subst frames_of.simps) (simp add: Scan_eq)

lemma frames_of_eq:
  "inp \<noteq> [] \<Longrightarrow> frames_of inp =
     (if length (takeWhile (\<lambda>x. x \<noteq> 0x0A) inp) < Mebibyte
      then (case frames_of (tl (dropWhile (\<lambda>x. x \<noteq> 0x0A) inp)) of
              Inl f \<Rightarrow> Inl f
            | Inr fs \<Rightarrow> Inr (if dropCR (takeWhile (\<lambda>x. x \<noteq> 0x0A) inp) = [] then fs
                            else dropCR (takeWhile (\<lambda>x. x \<noteq> 0x0A) inp) # fs))
      else Inl (Error ErrTooLong))"
  by (subst frames_of.simps) (simp add: Scan_eq)

lemma frames_of_leading_newline: "frames_of (0x0A # y) = frames_of y"
  by (subst frames_of.simps) (simp add: Scan_leading_newline split: sum.splits)

lemma frames_append_Nil: "frames_append r (Inr []) = r"
  by (cases r) simp_all

lemma frames_of_split: "frames_of (x @ 0x0A # y) = frames_append (frames_of x) (frames_of y)"
proof (induction x rule: length_induct)
  case (1 x)
  show ?case
  proof (cases "x = []")
    case True
    then show ?thesis
      by (cases "frames_of y") (simp_all add: frames_of_leading_newline frames_of_Nil)
  next
    case ne: False
    show ?thesis
    proof (cases "0x0A \<in> set x")
      case True
      let ?x' = "tl (dropWhile (\<lambda>b. b \<noteq> 0x0A) x)"
      have dw: "dropWhile (\<lambda>b. b \<noteq> 0x0A) x \<noteq> []"
        using True by (simp add: dropWhile_eq_Nil_conv)
      have short: "length ?x' < length x"
        using dw length_dropWhile_le[of "\<lambda>b. b \<noteq> 0x0A" x]
        by (cases "dropWhile (\<lambda>b. b \<noteq> 0x0A) x") auto
      have tw: "takeWhile (\<lambda>b. b \<noteq> 0x0A) (x @ 0x0A # y) = takeWhile (\<lambda>b. b \<noteq> 0x0A) x"
        using True by (intro takeWhile_append1[of "0x0A"]) auto
      have "dropWhile (\<lambda>b. b \<noteq> 0x0A) (x @ 0x0A # y) = dropWhile (\<lambda>b. b \<noteq> 0x0A) x @ 0x0A # y"
        using True by (intro dropWhile_append1[of "0x0A"]) auto
      then have dr: "tl (dropWhile (\<lambda>b. b \<noteq> 0x0A) (x @ 0x0A # y)) = ?x' @ 0x0A # y"
        using dw by simp
      have IH: "frames_of (?x' @ 0x0A # y) = frames_append (frames_of ?x') (frames_of y)"
        using 1 short by blast
      show ?thesis
        using ne
        by (cases "frames_of ?x'"; cases "frames_of y")
          (simp_all add: frames_of_eq[of x] frames_of_eq[of "x @ 0x0A # y"] tw dr IH)
    next
      case False
      have tw: "takeWhile (\<lambda>b. b \<noteq> 0x0A) (x @ 0x0A # y) = x"
        using False by (simp add: takeWhile_upto)
      have dr: "tl (dropWhile (\<lambda>b. b \<noteq> 0x0A) (x @ 0x0A # y)) = y"
        using False by (simp add: dropWhile_upto)
      have tw': "takeWhile (\<lambda>b. b \<noteq> 0x0A) x = x" "dropWhile (\<lambda>b. b \<noteq> 0x0A) x = []"
        using False by (simp_all add: takeWhile_absent dropWhile_absent)
      show ?thesis
        using ne
        by (cases "frames_of y")
          (simp_all add: frames_of_eq[of x] frames_of_eq[of "x @ 0x0A # y"] frames_of_Nil
            tw dr tw')
    qed
  qed
qed

lemma frames_of_trailing_newline: "frames_of (x @ [0x0A]) = frames_of x"
  using frames_of_split[of x "[]"] by (simp add: frames_of_Nil frames_append_Nil)

lemma lineReader_Read_skip:
  "lineReader_Read \<lparr>input = d, skipEmpty = True\<rparr> =
     (case Scan d of
        Stop e \<Rightarrow> Inl (Error (case e of None \<Rightarrow> EOF | Some e' \<Rightarrow> e'))
      | Token line rest \<Rightarrow>
          if line = [] then lineReader_Read \<lparr>input = rest, skipEmpty = True\<rparr>
          else Inr (line, \<lparr>input = rest, skipEmpty = True\<rparr>))"
  by (subst lineReader_Read.simps) (simp split: scan.splits)

lemma ReadAllFrames_loop_cong:
  "read r = read r' \<Longrightarrow> ReadAllFrames_loop read r acc = ReadAllFrames_loop read r' acc"
  by (subst ReadAllFrames_loop.simps, subst (2) ReadAllFrames_loop.simps) simp

lemma ReadAllFrames_loop_lineReader:
  "ReadAllFrames_loop lineReader_Read \<lparr>input = d, skipEmpty = True\<rparr> acc =
     Some (case frames_of d of Inl f \<Rightarrow> Inl f | Inr fs \<Rightarrow> Inr (acc @ fs))"
proof (induction d arbitrary: acc rule: frames_of.induct)
  case (1 inp)
  show ?case
  proof (cases "Scan inp")
    case (Stop e)
    then show ?thesis
      by (subst ReadAllFrames_loop.simps, subst frames_of.simps)
        (auto simp: lineReader_Read_skip split: option.splits)
  next
    case (Token line rest)
    note IH = 1[OF Token]
    show ?thesis
    proof (cases "line = []")
      case True
      have "lineReader_Read \<lparr>input = inp, skipEmpty = True\<rparr>
          = lineReader_Read \<lparr>input = rest, skipEmpty = True\<rparr>"
        using Token True by (subst lineReader_Read_skip) simp
      then have "ReadAllFrames_loop lineReader_Read \<lparr>input = inp, skipEmpty = True\<rparr> acc
          = ReadAllFrames_loop lineReader_Read \<lparr>input = rest, skipEmpty = True\<rparr> acc"
        by (rule ReadAllFrames_loop_cong)
      then show ?thesis
        using IH[of acc] Token True
        by (subst frames_of.simps) (simp split: sum.splits)
    next
      case False
      have "lineReader_Read \<lparr>input = inp, skipEmpty = True\<rparr>
          = Inr (line, \<lparr>input = rest, skipEmpty = True\<rparr>)"
        using Token False by (subst lineReader_Read_skip) simp
      then have "ReadAllFrames_loop lineReader_Read \<lparr>input = inp, skipEmpty = True\<rparr> acc
          = ReadAllFrames_loop lineReader_Read \<lparr>input = rest, skipEmpty = True\<rparr> (acc @ [line])"
        by (subst ReadAllFrames_loop.simps) simp
      then show ?thesis
        using IH[of "acc @ [line]"] Token False
        by (subst frames_of.simps) (simp split: sum.splits)
    qed
  qed
qed

lemma ReadAllFrames_lineReader:
  "ReadAllFrames lineReader_Read (NewNewlineDelimitedFrameReader d True) = Some (frames_of d)"
  by (simp add: ReadAllFrames_def NewNewlineDelimitedFrameReader_def
      ReadAllFrames_loop_lineReader split: sum.splits)

lemma ReadAllFrames_loop_multi_Nil:
  "ReadAllFrames_loop (multiFrameReader_Read read) [] acc = Some (Inr acc)"
  by (subst ReadAllFrames_loop.simps) simp

lemma ReadAllFrames_loop_multi_Cons:
  "ReadAllFrames_loop (multiFrameReader_Read lineReader_Read)
     (\<lparr>input = d, skipEmpty = True\<rparr> # rs) acc =
     (case frames_of d of
        Inl f \<Rightarrow> Some (Inl f)
      | Inr fs \<Rightarrow> ReadAllFrames_loop (multiFrameReader_Read lineReader_Read) rs (acc @ fs))"
proof (induction d arbitrary: acc rule: frames_of.induct)
  case (1 inp)
  let ?M = "multiFrameReader_Read lineReader_Read"
  show ?case
  proof (cases "Scan inp")
    case (Stop e)
    show ?thesis
    proof (cases "e = None \<or> e = Some EOF")
      case True
      then have "lineReader_Read \<lparr>input = inp, skipEmpty = True\<rparr> = Inl (Error EOF)"
        using Stop by (subst lineReader_Read_skip) auto
      then have "?M (\<lparr>input = inp, skipEmpty = True\<rparr> # rs) = ?M rs"
        by simp
      then have "ReadAllFrames_loop ?M (\<lparr>input = inp, skipEmpty = True\<rparr> # rs) acc
          = ReadAllFrames_loop ?M rs acc"
        by (rule ReadAllFrames_loop_cong)
      then show ?thesis
        using Stop True by (subst frames_of.simps) auto
    next
      case False
      then obtain e' where e': "e = Some e'" "e' \<noteq> EOF" by (cases e) auto
      then have "lineReader_Read \<lparr>input = inp, skipEmpty = True\<rparr> = Inl (Error e')"
        using Stop by (subst lineReader_Read_skip) auto
      then have "?M (\<lparr>input = inp, skipEmpty = True\<rparr> # rs) = Inl (Error e')"
        using e' by simp
      then have "ReadAllFrames_loop ?M (\<lparr>input = inp, skipEmpty = True\<rparr> # rs) acc
          = Some (Inl (Error e'))"
        using e' by (subst ReadAllFrames_loop.simps) simp
      then show ?thesis
        using Stop e' by (subst frames_of.simps) auto
    qed
  next
    case (Token line rest)
    note IH = 1[OF Token]
    show ?thesis
    proof (cases "line = []")
      case True
      have "lineReader_Read \<lparr>input = inp, skipEmpty = True\<rparr>
          = lineReader_Read \<lparr>input = rest, skipEmpty = True\<rparr>"
        using Token True by (subst lineReader_Read_skip) simp
      then have "?M (\<lparr>input = inp, skipEmpty = True\<rparr> # rs)
          = ?M (\<lparr>input = rest, skipEmpty = True\<rparr> # rs)"
        by simp
      then have "ReadAllFrames_loop ?M (\<lparr>input = inp, skipEmpty = True\<rparr> # rs) acc
          = ReadAllFrames_loop ?M (\<lparr>input = rest, skipEmpty = True\<rparr> # rs) acc"
        by (rule ReadAllFrames_loop_cong)
      then show ?thesis
        using IH[of acc] Token True
        by (subst frames_of.simps) (simp split: sum.splits)
    next
      case False
      have "lineReader_Read \<lparr>input = inp, skipEmpty = True\<rparr>
          = Inr (line, \<lparr>input = rest, skipEmpty = True\<rparr>)"
        using Token False by (subst lineReader_Read_skip) simp
      then have "ReadAllFrames_loop ?M (\<lparr>input = inp, skipEmpty = True\<rparr> # rs) acc
          = ReadAllFrames_loop ?M (\<lparr>input = rest, skipEmpty = True\<rparr> # rs) (acc @ [line])"
        by (subst ReadAllFrames_loop.simps) simp
      then show ?thesis
        using IH[of "acc @ [line]"] Token False
        by (subst frames_of.simps) (simp split: sum.splits)
    qed
  qed
qed

lemma ReadAllFrames_loop_multi:
  "ReadAllFrames_loop (multiFrameReader_Read lineReader_Read)
     (map (\<lambda>d. \<lparr>input = d, skipEmpty = True\<rparr>) ds) acc =
     Some (case frames_concat ds of Inl f \<Rightarrow> Inl f | Inr fs \<Rightarrow> Inr (acc @ fs))"
proof (induction ds arbitrary: acc)
  case Nil
  then show ?case by (simp add: ReadAllFrames_loop_multi_Nil)
next
  case (Cons d ds)
  show ?case
    by (cases "frames_of d"; cases "frames_concat ds")
      (simp_all add: ReadAllFrames_loop_multi_Cons Cons.IH)
qed

lemma ReadAllFrames_multi:
  "ReadAllFrames (multiFrameReader_Read lineReader_Read)
     (MultiFrameReader (map (\<lambda>d. \<lparr>input = d, skipEmpty = True\<rparr>) ds)) = Some (frames_concat ds)"
  by (simp add: ReadAllFrames_def MultiFrameReader_def ReadAllFrames_loop_multi split: sum.splits)

subsection \<open>The chunker's loop over a stream\<close>

lemma NextChunk_exhausted: "rd c = None \<Longrightarrow> NextChunk c = (Inl (Error EOF), c)"
  by (simp add: NextChunk_def)

lemma make_bytes_ok: "n \<le> maxAlloc \<Longrightarrow> make_bytes (int n) = Inr n"
  by (simp add: make_bytes_def)

lemma NextChunk_cut_found:
  assumes "delimiter c \<in> set buf"
  shows "NextChunk_cut c buf =
     (Inr \<lparr>input = prev c @ take (nat (LastIndexByte buf (delimiter c))) buf, skipEmpty = True\<rparr>,
      c\<lparr>prev := drop (nat (LastIndexByte buf (delimiter c))) buf\<rparr>)"
proof -
  have "LastIndexByte buf (delimiter c) \<noteq> - 1"
    using LastIndexByte_present[OF assms] by simp
  then show ?thesis
    by (simp add: NextChunk_cut_def Let_def NewNewlineDelimitedFrameReader_def MultiReader_def)
qed

lemma NextChunk_cut_absent:
  assumes "delimiter c \<notin> set buf" and "int (length buf) \<noteq> chunkSize c"
  shows "NextChunk_cut c buf = (Inr \<lparr>input = prev c @ buf, skipEmpty = True\<rparr>, c\<lparr>prev := []\<rparr>)"
  using assms
  by (simp add: NextChunk_cut_def Let_def NewNewlineDelimitedFrameReader_def MultiReader_def
      LastIndexByte_absent)

lemma NextChunk_full:
  assumes "n \<le> length s" and "n \<le> maxAlloc" and "d \<in> set (take n s)"
  shows "NextChunk \<lparr>rd = Some \<lparr>pending = s, fault = None\<rparr>, delimiter = d, chunkSize = int n, prev = p\<rparr>
     = (Inr \<lparr>input = p @ take (nat (LastIndexByte (take n s) d)) (take n s), skipEmpty = True\<rparr>,
        \<lparr>rd = Some \<lparr>pending = drop n s, fault = None\<rparr>, delimiter = d, chunkSize = int n,
         prev = drop (nat (LastIndexByte (take n s) d)) (take n s)\<rparr>)"
  using assms
  by (simp add: NextChunk_def make_bytes_ok ReadFull_def NextChunk_cut_found)

lemma NextChunk_short:
  assumes "length s < n" and "n \<le> maxAlloc"
  shows "NextChunk \<lparr>rd = Some \<lparr>pending = s, fault = None\<rparr>, delimiter = d, chunkSize = int n, prev = p\<rparr>
     = NextChunk_cut \<lparr>rd = None, delimiter = d, chunkSize = int n, prev = p\<rparr> s"
  using assms
  by (simp add: NextChunk_def make_bytes_ok ReadFull_def Read_err_def)

lemma ReadAllChunks_loop_last:
  assumes "nextChunk c = (Inr reader, c')" and "nextChunk c' = (Inl (Error EOF), c'')"
  shows "ReadAllChunks_loop nextChunk c acc = Some (Inr (acc @ [reader]))"
  using assms
  by (subst ReadAllChunks_loop.simps, subst ReadAllChunks_loop.simps) simp

lemma ReadAllChunks_loop_step:
  assumes "nextChunk c = (Inr reader, c')"
  shows "ReadAllChunks_loop nextChunk c acc = ReadAllChunks_loop nextChunk c' (acc @ [reader])"
  using assms by (subst ReadAllChunks_loop.simps) simp

lemma ReadAllChunks_loop_fail:
  assumes "nextChunk c = (Inl e, c')" and "e \<noteq> Error EOF"
  shows "ReadAllChunks_loop nextChunk c acc = Some (Inl e)"
  using assms by (subst ReadAllChunks_loop.simps) simp

lemma last_window_short: "length s < n \<Longrightarrow> last_window n s = s"
  by (simp add: last_window_def)

lemma last_window_drop:
  assumes "n \<le> length s"
  shows "last_window n (drop n s) = last_window n s"
proof -
  have m: "(length s - n) mod n = length s mod n"
    using assms by (simp add: le_mod_geq)
  have "length s mod n \<le> length s - n"
    using m mod_less_eq_dividend[of "length s - n" n] by simp
  then have "length s - n - length s mod n + n = length s - length s mod n"
    using assms by arith
  then show ?thesis
    by (simp add: last_window_def m)
qed

lemma ReadAllChunks_loop_short:
  assumes "length s < n" and "n \<le> maxAlloc" and "0x0A \<notin> set s \<or> last s = 0x0A"
  shows "ReadAllChunks_loop NextChunk
           \<lparr>rd = Some \<lparr>pending = s, fault = None\<rparr>, delimiter = 0x0A, chunkSize = int n, prev = p\<rparr> acc
         = Some (Inr (acc @ [\<lparr>input = p @ (if 0x0A \<in> set s then butlast s else s), skipEmpty = True\<rparr>]))"
proof -
  let ?c = "\<lparr>rd = Some \<lparr>pending = s, fault = None\<rparr>, delimiter = 0x0A, chunkSize = int n, prev = p\<rparr>"
  let ?c1 = "\<lparr>rd = None, delimiter = 0x0A, chunkSize = int n, prev = p\<rparr>"
  have step: "NextChunk ?c = NextChunk_cut ?c1 s"
    using assms(1,2) by (rule NextChunk_short)
  show ?thesis
  proof (cases "0x0A \<in> set s")
    case absent: False
    have "NextChunk ?c = (Inr \<lparr>input = p @ s, skipEmpty = True\<rparr>, ?c1\<lparr>prev := []\<rparr>)"
      using step absent assms(1) NextChunk_cut_absent[of ?c1 s] by simp
    moreover have "NextChunk (?c1\<lparr>prev := []\<rparr>) = (Inl (Error EOF), ?c1\<lparr>prev := []\<rparr>)"
      by (rule NextChunk_exhausted) simp
    ultimately have "ReadAllChunks_loop NextChunk ?c acc
        = Some (Inr (acc @ [\<lparr>input = p @ s, skipEmpty = True\<rparr>]))"
      by (rule ReadAllChunks_loop_last[where nextChunk = NextChunk])
    then show ?thesis
      using absent by simp
  next
    case True
    then have l: "last s = 0x0A" using assms(3) by auto
    let ?pos = "nat (LastIndexByte s 0x0A)"
    note P = LastIndexByte_present[OF True]
    have "?pos = length s - 1"
    proof (rule ccontr)
      assume "?pos \<noteq> length s - 1"
      then have "Suc ?pos < length s" using P by arith
      then have "last s \<in> set (drop (Suc ?pos) s)"
        by (metis drop_eq_Nil last_drop last_in_set not_le)
      then show False using P l by simp
    qed
    then have tk: "take ?pos s = butlast s"
      by (simp add: butlast_conv_take)
    have "NextChunk ?c = (Inr \<lparr>input = p @ butlast s, skipEmpty = True\<rparr>, ?c1\<lparr>prev := drop ?pos s\<rparr>)"
      using step True NextChunk_cut_found[of ?c1 s] tk by simp
    moreover have "NextChunk (?c1\<lparr>prev := drop ?pos s\<rparr>) = (Inl (Error EOF), ?c1\<lparr>prev := drop ?pos s\<rparr>)"
      by (rule NextChunk_exhausted) simp
    ultimately have "ReadAllChunks_loop NextChunk ?c acc
        = Some (Inr (acc @ [\<lparr>input = p @ butlast s, skipEmpty = True\<rparr>]))"
      by (rule ReadAllChunks_loop_last[where nextChunk = NextChunk])
    then show ?thesis
      using True by simp
  qed
qed

lemma ReadAllChunks_loop_stream:
  assumes "0 < n" and "n \<le> maxAlloc"
    and "\<forall>i. i + n \<le> length s \<longrightarrow> 0x0A \<in> set (take n (drop i s))"
    and "0x0A \<notin> set (last_window n s) \<or> last (last_window n s) = 0x0A"
  shows "\<exists>ds. ReadAllChunks_loop NextChunk
           \<lparr>rd = Some \<lparr>pending = s, fault = None\<rparr>, delimiter = 0x0A, chunkSize = int n, prev = p\<rparr> acc
           = Some (Inr (acc @ map (\<lambda>d. \<lparr>input = d, skipEmpty = True\<rparr>) ds))
         \<and> frames_concat ds = frames_of (p @ s)"
  using assms(3,4)
proof (induction s arbitrary: p acc rule: length_induct)
  case (1 s)
  let ?c = "\<lparr>rd = Some \<lparr>pending = s, fault = None\<rparr>, delimiter = 0x0A, chunkSize = int n, prev = p\<rparr>"
  show ?case
  proof (cases "n \<le> length s")
    case True
    let ?buf = "take n s"
    let ?pos = "nat (LastIndexByte ?buf 0x0A)"
    have found: "0x0A \<in> set ?buf"
      using "1.prems"(1) True by (metis add_0 drop0)
    note P = LastIndexByte_present[OF found]
    have carry: "drop ?pos ?buf = 0x0A # drop (Suc ?pos) ?buf"
      using P Cons_nth_drop_Suc[of ?pos ?buf] by simp
    let ?c' = "\<lparr>rd = Some \<lparr>pending = drop n s, fault = None\<rparr>, delimiter = 0x0A, chunkSize = int n,
         prev = drop ?pos ?buf\<rparr>"
    have step: "NextChunk ?c = (Inr \<lparr>input = p @ take ?pos ?buf, skipEmpty = True\<rparr>, ?c')"
      using True assms(2) found by (rule NextChunk_full)
    have shorter: "length (drop n s) < length s"
      using True assms(1) by simp
    have G: "\<forall>i. i + n \<le> length (drop n s) \<longrightarrow> 0x0A \<in> set (take n (drop i (drop n s)))"
    proof (intro allI impI)
      fix i assume "i + n \<le> length (drop n s)"
      then have "(i + n) + n \<le> length s" using True by simp
      then have "0x0A \<in> set (take n (drop (i + n) s))"
        using "1.prems"(1) by blast
      then show "0x0A \<in> set (take n (drop i (drop n s)))"
        by (simp add: add.commute)
    qed
    have T: "0x0A \<notin> set (last_window n (drop n s)) \<or> last (last_window n (drop n s)) = 0x0A"
      using "1.prems"(2) by (simp add: last_window_drop[OF True])
    from "1.IH" shorter G T
    obtain ds where ds: "ReadAllChunks_loop NextChunk ?c' (acc @ [\<lparr>input = p @ take ?pos ?buf, skipEmpty = True\<rparr>])
           = Some (Inr ((acc @ [\<lparr>input = p @ take ?pos ?buf, skipEmpty = True\<rparr>])
                        @ map (\<lambda>d. \<lparr>input = d, skipEmpty = True\<rparr>) ds))"
        "frames_concat ds = frames_of (drop ?pos ?buf @ drop n s)"
      by blast
    have b: "take ?pos ?buf @ 0x0A # drop (Suc ?pos) ?buf = ?buf"
      by (metis append_take_drop_id carry)
    have "(p @ take ?pos ?buf) @ 0x0A # (drop (Suc ?pos) ?buf @ drop n s)
        = p @ ((take ?pos ?buf @ 0x0A # drop (Suc ?pos) ?buf) @ drop n s)"
      by (simp only: append_assoc append_Cons)
    also have "\<dots> = p @ (?buf @ drop n s)"
      by (simp only: b)
    also have "\<dots> = p @ s"
      by simp
    finally have split: "p @ s = (p @ take ?pos ?buf) @ 0x0A # (drop (Suc ?pos) ?buf @ drop n s)"
      by (rule sym)
    have "frames_of (p @ s)
        = frames_append (frames_of (p @ take ?pos ?buf)) (frames_of (drop (Suc ?pos) ?buf @ drop n s))"
      by (subst split) (rule frames_of_split)
    also have "frames_of (drop (Suc ?pos) ?buf @ drop n s) = frames_of (drop ?pos ?buf @ drop n s)"
      by (simp add: carry frames_of_leading_newline)
    finally have fr: "frames_concat ((p @ take ?pos ?buf) # ds) = frames_of (p @ s)"
      using ds(2) by simp
    have "ReadAllChunks_loop NextChunk ?c acc
        = Some (Inr (acc @ map (\<lambda>d. \<lparr>input = d, skipEmpty = True\<rparr>) ((p @ take ?pos ?buf) # ds)))"
      using ReadAllChunks_loop_step[where nextChunk = NextChunk, OF step, of acc] ds(1) by simp
    then show ?thesis using fr by blast
  next
    case False
    then have short: "length s < n" by simp
    have tail: "0x0A \<notin> set s \<or> last s = 0x0A"
      using "1.prems"(2) short by (simp add: last_window_short)
    note run = ReadAllChunks_loop_short[OF short assms(2) tail, of p acc]
    show ?thesis
    proof (cases "0x0A \<in> set s")
      case False
      then show ?thesis
        using run by (intro exI[of _ "[p @ s]"]) (simp add: frames_append_Nil)
    next
      case True
      then have ne: "s \<noteq> []" and l: "last s = 0x0A" using tail by auto
      have "p @ s = (p @ butlast s) @ [0x0A]"
        using ne l by (metis append_assoc append_butlast_last_id)
      then have "frames_of (p @ s) = frames_of (p @ butlast s)"
        by (simp only: frames_of_trailing_newline)
      then show ?thesis
        using run True by (intro exI[of _ "[p @ butlast s]"]) (simp add: frames_append_Nil)
    qed
  qed
qed

lemma lines_of_not_Nil: "lines_of s \<noteq> []"
  by (induction s) auto

lemma length_hd_lines_of: "length (hd (lines_of s)) = length (takeWhile (\<lambda>x. x \<noteq> 0x0A) s)"
  by (induction s) auto

lemma lines_of_long_line:
  "i + n \<le> length s \<Longrightarrow> 0x0A \<notin> set (take n (drop i s)) \<Longrightarrow> \<exists>l\<in>set (lines_of s). n \<le> length l"
proof (induction s arbitrary: i)
  case Nil
  then show ?case by simp
next
  case (Cons b bs)
  show ?case
  proof (cases i)
    case 0
    then have "n \<le> length (takeWhile (\<lambda>x. x \<noteq> 0x0A) (b # bs))"
      using Cons.prems by (intro takeWhile_take_absent) simp_all
    then have "n \<le> length (hd (lines_of (b # bs)))"
      by (simp only: length_hd_lines_of)
    moreover have "hd (lines_of (b # bs)) \<in> set (lines_of (b # bs))"
      using lines_of_not_Nil by (intro hd_in_set)
    ultimately show ?thesis by blast
  next
    case (Suc j)
    then obtain l where l: "l \<in> set (lines_of bs)" "n \<le> length l"
      using Cons.prems Cons.IH[of j] by auto
    obtain h t where ht: "lines_of bs = h # t"
      using lines_of_not_Nil[of bs] by (cases "lines_of bs") auto
    show ?thesis
    proof (cases "l = h")
      case True
      then show ?thesis using l ht by (cases "b = 0x0A") auto
    next
      case False
      then have "l \<in> set t" using l ht by simp
      then show ?thesis using l ht by (cases "b = 0x0A") auto
    qed
  qed
qed

lemma lines_of_windows:
  assumes "\<forall>l\<in>set (lines_of s). length l < n"
  shows "\<forall>i. i + n \<le> length s \<longrightarrow> 0x0A \<in> set (take n (drop i s))"
  using assms lines_of_long_line[of _ n s] by (meson not_le)

lemmas units = Mebibyte_def Kibibyte_def Byte_def

lemma frames_ab_cd:
  "frames_of (bytes_of ''ab'' @ 0x0A # bytes_of ''cd'' @ [0x0A]) = Inr [bytes_of ''ab'', bytes_of ''cd'']"
  by (simp add: frames_of_eq frames_of_Nil bytes_of_def dropCR_def units)

text \<open>
  C1 does not hold as stated: with a chunk size equal to the largest frame length, a full
  window can hold a frame and no delimiter, and \<^verbatim>\<open>NextChunk\<close> fails where the direct
  reader succeeds.
\<close>

theorem chunks_equal_stream_counterexample:
  "NewNewlineDelimitedChunkReader
     (Some \<lparr>pending = bytes_of ''ab'' @ 0x0A # bytes_of ''cd'' @ [0x0A], fault = None\<rparr>) 2
     = Inr \<lparr>rd = Some \<lparr>pending = bytes_of ''ab'' @ 0x0A # bytes_of ''cd'' @ [0x0A], fault = None\<rparr>,
            delimiter = 0x0A, chunkSize = 2, prev = []\<rparr>
   \<and> ReadAllChunks NextChunk
       \<lparr>rd = Some \<lparr>pending = bytes_of ''ab'' @ 0x0A # bytes_of ''cd'' @ [0x0A], fault = None\<rparr>,
        delimiter = 0x0A, chunkSize = 2, prev = []\<rparr> = Some (Inl (Error NoFrameFoundErr))
   \<and> ReadAllFrames lineReader_Read
       (NewNewlineDelimitedFrameReader (bytes_of ''ab'' @ 0x0A # bytes_of ''cd'' @ [0x0A]) True)
       = Some (Inr [bytes_of ''ab'', bytes_of ''cd''])"
proof -
  let ?s = "bytes_of ''ab'' @ 0x0A # bytes_of ''cd'' @ [0x0A]"
  let ?c = "\<lparr>rd = Some \<lparr>pending = ?s, fault = None\<rparr>, delimiter = 0x0A, chunkSize = 2, prev = []\<rparr>"
  have "NextChunk ?c = (Inl (Error NoFrameFoundErr),
      \<lparr>rd = Some \<lparr>pending = 0x0A # bytes_of ''cd'' @ [0x0A], fault = None\<rparr>,
       delimiter = 0x0A, chunkSize = 2, prev = []\<rparr>)"
    by (simp add: NextChunk_def NextChunk_cut_def make_bytes_def maxAlloc_def ReadFull_def
        LastIndexByte_def bytes_of_def)
  then have "ReadAllChunks NextChunk ?c = Some (Inl (Error NoFrameFoundErr))"
    unfolding ReadAllChunks_def
    by (intro ReadAllChunks_loop_fail[where nextChunk = NextChunk]) simp_all
  then show ?thesis
    by (simp add: NewNewlineDelimitedChunkReader_def ReadAllFrames_lineReader frames_ab_cd)
qed

text \<open>
  C1, amended: for every newline-delimited stream held in memory and every chunk size
  (within the allocation limit) that is strictly greater than the length of every line of
  the stream, a line being the bytes between two delimiters with any carriage return,
  provided the bytes behind the last full window of chunk-size bytes hold no delimiter or
  end with one: \<^verbatim>\<open>ReadAllChunks\<close> returns the chunk readers, and \<^verbatim>\<open>ReadAllFrames\<close> over
  their \<^verbatim>\<open>MultiFrameReader\<close> returns the same result as \<^verbatim>\<open>ReadAllFrames\<close> over
  \<^verbatim>\<open>NewNewlineDelimitedFrameReader\<close> of the whole stream with empty lines skipped: the
  same frames in the same order, or the same error of a line too long for the scanner.
\<close>

theorem chunks_equal_stream:
  assumes "0 < n" and "n \<le> int maxAlloc"
    and "\<forall>l\<in>set (lines_of s). int (length l) < n"
    and "0x0A \<notin> set (last_window (nat n) s) \<or> last (last_window (nat n) s) = 0x0A"
  shows "\<exists>c readers result.
           NewNewlineDelimitedChunkReader (Some \<lparr>pending = s, fault = None\<rparr>) n = Inr c
         \<and> ReadAllChunks NextChunk c = Some (Inr readers)
         \<and> ReadAllFrames (multiFrameReader_Read lineReader_Read) (MultiFrameReader readers)
             = Some result
         \<and> ReadAllFrames lineReader_Read (NewNewlineDelimitedFrameReader s True) = Some result"
proof -
  let ?n = "nat n"
  let ?c = "\<lparr>rd = Some \<lparr>pending = s, fault = None\<rparr>, delimiter = 0x0A, chunkSize = int ?n, prev = []\<rparr>"
  have n: "0 < ?n" "?n \<le> maxAlloc" "int ?n = n"
    using assms(1,2) by simp_all
  have "\<forall>l\<in>set (lines_of s). length l < ?n"
    using assms(3) by auto
  then have G: "\<forall>i. i + ?n \<le> length s \<longrightarrow> 0x0A \<in> set (take ?n (drop i s))"
    by (rule lines_of_windows)
  from ReadAllChunks_loop_stream[OF n(1,2) G assms(4), of "[]" "[]"]
  obtain ds where ds: "ReadAllChunks_loop NextChunk ?c [] = Some (Inr (map (\<lambda>d. \<lparr>input = d, skipEmpty = True\<rparr>) ds))"
    "frames_concat ds = frames_of s"
    by auto
  have c: "NewNewlineDelimitedChunkReader (Some \<lparr>pending = s, fault = None\<rparr>) n = Inr ?c"
    using assms(1) n(3) by (simp add: NewNewlineDelimitedChunkReader_def)
  show ?thesis
    using c ds
    by (intro exI[of _ ?c] exI[of _ "map (\<lambda>d. \<lparr>input = d, skipEmpty = True\<rparr>) ds"]
        exI[of _ "frames_of s"])
      (simp add: ReadAllChunks_def ReadAllFrames_multi ReadAllFrames_lineReader)
qed

theorem chunks_equal_stream_witness:
  "\<exists>c readers.
     NewNewlineDelimitedChunkReader
       (Some \<lparr>pending = bytes_of ''ab'' @ 0x0A # bytes_of ''cd'' @ 0x0A # bytes_of ''ef'' @ [0x0A],
              fault = None\<rparr>) 4 = Inr c
   \<and> ReadAllChunks NextChunk c = Some (Inr readers)
   \<and> ReadAllFrames (multiFrameReader_Read lineReader_Read) (MultiFrameReader readers)
       = Some (Inr [bytes_of ''ab'', bytes_of ''cd'', bytes_of ''ef''])
   \<and> ReadAllFrames lineReader_Read
       (NewNewlineDelimitedFrameReader
          (bytes_of ''ab'' @ 0x0A # bytes_of ''cd'' @ 0x0A # bytes_of ''ef'' @ [0x0A]) True)
       = Some (Inr [bytes_of ''ab'', bytes_of ''cd'', bytes_of ''ef''])"
proof -
  let ?s = "bytes_of ''ab'' @ 0x0A # bytes_of ''cd'' @ 0x0A # bytes_of ''ef'' @ [0x0A]"
  have h1: "(0::int) < 4" and h2: "4 \<le> int maxAlloc"
    by (simp_all add: maxAlloc_def)
  have h3: "\<forall>l\<in>set (lines_of ?s). int (length l) < 4"
    by (simp add: bytes_of_def)
  have h4: "0x0A \<notin> set (last_window (nat 4) ?s) \<or> last (last_window (nat 4) ?s) = 0x0A"
    by (simp add: bytes_of_def last_window_def)
  have direct: "ReadAllFrames lineReader_Read (NewNewlineDelimitedFrameReader ?s True)
      = Some (Inr [bytes_of ''ab'', bytes_of ''cd'', bytes_of ''ef''])"
    by (simp add: ReadAllFrames_lineReader frames_of_eq frames_of_Nil bytes_of_def dropCR_def units)
  from chunks_equal_stream[OF h1 h2 h3 h4] show ?thesis
    unfolding direct by auto
qed

lemma frames_c_bob: "frames_of (bytes_of ''c:bob'') = Inr [bytes_of ''c:bob'']"
  by (simp add: frames_of_eq frames_of_Nil bytes_of_def dropCR_def units)

lemma ReadAllFrames_single:
  "ReadAllFrames (multiFrameReader_Read lineReader_Read)
     (MultiFrameReader [\<lparr>input = d, skipEmpty = True\<rparr>]) = Some (frames_of d)"
  using ReadAllFrames_multi[of "[d]"] by (simp add: frames_append_Nil)

text \<open>
  C7 does not hold as stated: the empty stream gives one chunk, not zero; the chunk holds
  no frame.
\<close>

theorem empty_stream_one_chunk:
  "ReadAllChunks NextChunk
     \<lparr>rd = Some \<lparr>pending = bytes_of '''', fault = None\<rparr>, delimiter = 0x0A,
      chunkSize = 128, prev = []\<rparr> = Some (Inr [\<lparr>input = [], skipEmpty = True\<rparr>])
   \<and> ReadAllChunks NextChunk
     \<lparr>rd = Some \<lparr>pending = bytes_of '''', fault = None\<rparr>, delimiter = 0x0A,
      chunkSize = 128, prev = []\<rparr> \<noteq> Some (Inr [])"
proof -
  have "(128::nat) \<le> maxAlloc"
    by (simp add: maxAlloc_def)
  then show ?thesis
    using ReadAllChunks_loop_short[of "[]" 128 "[]" "[]"]
    by (simp add: ReadAllChunks_def bytes_of_def)
qed

text \<open>
  C7, amended: for every chunk size within the allocation limit that is larger than the
  stream, chunking the stream \<open>""\<close> yields exactly one chunk, which decodes to zero
  frames; chunking the stream \<open>"c:bob"\<close> yields one chunk, which decodes to exactly the
  frame \<open>"c:bob"\<close>; chunking the stream \<open>"c:bob\n"\<close> yields one chunk, which decodes to
  exactly the frame \<open>"c:bob"\<close>, the trailing delimiter giving no frame.
\<close>

theorem boundary_streams:
  assumes "n \<le> maxAlloc"
  shows "(0 < n \<longrightarrow>
            NewNewlineDelimitedChunkReader (Some \<lparr>pending = bytes_of '''', fault = None\<rparr>) (int n)
              = Inr \<lparr>rd = Some \<lparr>pending = bytes_of '''', fault = None\<rparr>, delimiter = 0x0A,
                     chunkSize = int n, prev = []\<rparr>
          \<and> ReadAllChunks NextChunk
              \<lparr>rd = Some \<lparr>pending = bytes_of '''', fault = None\<rparr>, delimiter = 0x0A,
               chunkSize = int n, prev = []\<rparr>
              = Some (Inr [\<lparr>input = [], skipEmpty = True\<rparr>])
          \<and> ReadAllFrames (multiFrameReader_Read lineReader_Read)
              (MultiFrameReader [\<lparr>input = [], skipEmpty = True\<rparr>]) = Some (Inr []))
       \<and> (5 < n \<longrightarrow>
            NewNewlineDelimitedChunkReader (Some \<lparr>pending = bytes_of ''c:bob'', fault = None\<rparr>) (int n)
              = Inr \<lparr>rd = Some \<lparr>pending = bytes_of ''c:bob'', fault = None\<rparr>, delimiter = 0x0A,
                     chunkSize = int n, prev = []\<rparr>
          \<and> ReadAllChunks NextChunk
              \<lparr>rd = Some \<lparr>pending = bytes_of ''c:bob'', fault = None\<rparr>, delimiter = 0x0A,
               chunkSize = int n, prev = []\<rparr>
              = Some (Inr [\<lparr>input = bytes_of ''c:bob'', skipEmpty = True\<rparr>])
          \<and> ReadAllFrames (multiFrameReader_Read lineReader_Read)
              (MultiFrameReader [\<lparr>input = bytes_of ''c:bob'', skipEmpty = True\<rparr>])
              = Some (Inr [bytes_of ''c:bob'']))
       \<and> (6 < n \<longrightarrow>
            NewNewlineDelimitedChunkReader
              (Some \<lparr>pending = bytes_of ''c:bob'' @ [0x0A], fault = None\<rparr>) (int n)
              = Inr \<lparr>rd = Some \<lparr>pending = bytes_of ''c:bob'' @ [0x0A], fault = None\<rparr>,
                     delimiter = 0x0A, chunkSize = int n, prev = []\<rparr>
          \<and> ReadAllChunks NextChunk
              \<lparr>rd = Some \<lparr>pending = bytes_of ''c:bob'' @ [0x0A], fault = None\<rparr>, delimiter = 0x0A,
               chunkSize = int n, prev = []\<rparr>
              = Some (Inr [\<lparr>input = bytes_of ''c:bob'', skipEmpty = True\<rparr>])
          \<and> ReadAllFrames (multiFrameReader_Read lineReader_Read)
              (MultiFrameReader [\<lparr>input = bytes_of ''c:bob'', skipEmpty = True\<rparr>])
              = Some (Inr [bytes_of ''c:bob'']))"
proof (intro conjI impI)
  assume "0 < n"
  then show "ReadAllChunks NextChunk
              \<lparr>rd = Some \<lparr>pending = bytes_of '''', fault = None\<rparr>, delimiter = 0x0A,
               chunkSize = int n, prev = []\<rparr>
              = Some (Inr [\<lparr>input = [], skipEmpty = True\<rparr>])"
    using ReadAllChunks_loop_short[of "[]" n "[]" "[]"] assms
    by (simp add: ReadAllChunks_def bytes_of_def)
next
  assume "5 < n"
  then show "ReadAllChunks NextChunk
              \<lparr>rd = Some \<lparr>pending = bytes_of ''c:bob'', fault = None\<rparr>, delimiter = 0x0A,
               chunkSize = int n, prev = []\<rparr>
              = Some (Inr [\<lparr>input = bytes_of ''c:bob'', skipEmpty = True\<rparr>])"
    using ReadAllChunks_loop_short[of "bytes_of ''c:bob''" n "[]" "[]"] assms
    by (simp add: ReadAllChunks_def bytes_of_def)
next
  assume "6 < n"
  then show "ReadAllChunks NextChunk
              \<lparr>rd = Some \<lparr>pending = bytes_of ''c:bob'' @ [0x0A], fault = None\<rparr>, delimiter = 0x0A,
               chunkSize = int n, prev = []\<rparr>
              = Some (Inr [\<lparr>input = bytes_of ''c:bob'', skipEmpty = True\<rparr>])"
    using ReadAllChunks_loop_short[of "bytes_of ''c:bob'' @ [0x0A]" n "[]" "[]"] assms
    by (simp add: ReadAllChunks_def bytes_of_def)
qed (simp_all add: NewNewlineDelimitedChunkReader_def ReadAllFrames_single frames_c_bob
    frames_of_Nil)

theorem boundary_streams_witness:
  "ReadAllChunks NextChunk
     \<lparr>rd = Some \<lparr>pending = bytes_of '''', fault = None\<rparr>, delimiter = 0x0A,
      chunkSize = 128, prev = []\<rparr> = Some (Inr [\<lparr>input = [], skipEmpty = True\<rparr>])
   \<and> ReadAllFrames (multiFrameReader_Read lineReader_Read)
       (MultiFrameReader [\<lparr>input = [], skipEmpty = True\<rparr>]) = Some (Inr [])
   \<and> ReadAllChunks NextChunk
       \<lparr>rd = Some \<lparr>pending = bytes_of ''c:bob'', fault = None\<rparr>, delimiter = 0x0A,
        chunkSize = 128, prev = []\<rparr> = Some (Inr [\<lparr>input = bytes_of ''c:bob'', skipEmpty = True\<rparr>])
   \<and> ReadAllChunks NextChunk
       \<lparr>rd = Some \<lparr>pending = bytes_of ''c:bob'' @ [0x0A], fault = None\<rparr>, delimiter = 0x0A,
        chunkSize = 128, prev = []\<rparr> = Some (Inr [\<lparr>input = bytes_of ''c:bob'', skipEmpty = True\<rparr>])
   \<and> ReadAllFrames (multiFrameReader_Read lineReader_Read)
       (MultiFrameReader [\<lparr>input = bytes_of ''c:bob'', skipEmpty = True\<rparr>])
       = Some (Inr [bytes_of ''c:bob''])"
proof -
  have "(128::nat) \<le> maxAlloc"
    by (simp add: maxAlloc_def)
  from boundary_streams[OF this] show ?thesis
    by simp
qed

text \<open>
  C2 fails on the code. With the stream \<open>"a\nb"\<close> and a chunk size of 128 the first
  \<^verbatim>\<open>NextChunk\<close> makes a short read, returns the chunk \<open>"a"\<close> and keeps the carry
  buffer \<open>"\nb"\<close>; the call that follows returns \<^verbatim>\<open>io.EOF\<close> and the carry buffer is
  never delivered: the chunks decode to the frame \<open>"a"\<close> alone, the stream to \<open>"a"\<close> and
  \<open>"b"\<close>.
\<close>

theorem carry_dropped_at_end:
  "NewNewlineDelimitedChunkReader (Some \<lparr>pending = bytes_of ''a'' @ 0x0A # bytes_of ''b'', fault = None\<rparr>) 128
     = Inr \<lparr>rd = Some \<lparr>pending = bytes_of ''a'' @ 0x0A # bytes_of ''b'', fault = None\<rparr>,
            delimiter = 0x0A, chunkSize = 128, prev = []\<rparr>
   \<and> NextChunk \<lparr>rd = Some \<lparr>pending = bytes_of ''a'' @ 0x0A # bytes_of ''b'', fault = None\<rparr>,
                 delimiter = 0x0A, chunkSize = 128, prev = []\<rparr>
     = (Inr \<lparr>input = bytes_of ''a'', skipEmpty = True\<rparr>,
        \<lparr>rd = None, delimiter = 0x0A, chunkSize = 128, prev = 0x0A # bytes_of ''b''\<rparr>)
   \<and> NextChunk \<lparr>rd = None, delimiter = 0x0A, chunkSize = 128, prev = 0x0A # bytes_of ''b''\<rparr>
     = (Inl (Error EOF), \<lparr>rd = None, delimiter = 0x0A, chunkSize = 128, prev = 0x0A # bytes_of ''b''\<rparr>)
   \<and> ReadAllChunks NextChunk
       \<lparr>rd = Some \<lparr>pending = bytes_of ''a'' @ 0x0A # bytes_of ''b'', fault = None\<rparr>,
        delimiter = 0x0A, chunkSize = 128, prev = []\<rparr>
     = Some (Inr [\<lparr>input = bytes_of ''a'', skipEmpty = True\<rparr>])
   \<and> ReadAllFrames (multiFrameReader_Read lineReader_Read)
       (MultiFrameReader [\<lparr>input = bytes_of ''a'', skipEmpty = True\<rparr>]) = Some (Inr [bytes_of ''a''])
   \<and> ReadAllFrames lineReader_Read
       (NewNewlineDelimitedFrameReader (bytes_of ''a'' @ 0x0A # bytes_of ''b'') True)
     = Some (Inr [bytes_of ''a'', bytes_of ''b''])"
proof -
  let ?c = "\<lparr>rd = Some \<lparr>pending = bytes_of ''a'' @ 0x0A # bytes_of ''b'', fault = None\<rparr>,
                 delimiter = 0x0A, chunkSize = 128, prev = []\<rparr>"
  let ?c' = "\<lparr>rd = None, delimiter = 0x0A, chunkSize = 128, prev = 0x0A # bytes_of ''b''\<rparr>"
  have step: "NextChunk ?c = (Inr \<lparr>input = bytes_of ''a'', skipEmpty = True\<rparr>, ?c')"
    by (simp add: NextChunk_def NextChunk_cut_def make_bytes_def maxAlloc_def ReadFull_def
        Read_err_def LastIndexByte_def bytes_of_def NewNewlineDelimitedFrameReader_def
        MultiReader_def)
  have stop: "NextChunk ?c' = (Inl (Error EOF), ?c')"
    by (rule NextChunk_exhausted) simp
  have all: "ReadAllChunks NextChunk ?c = Some (Inr [\<lparr>input = bytes_of ''a'', skipEmpty = True\<rparr>])"
    unfolding ReadAllChunks_def
    using ReadAllChunks_loop_last[where nextChunk = NextChunk, OF step stop, of "[]"] by simp
  have f1: "frames_of (bytes_of ''a'') = Inr [bytes_of ''a'']"
    by (simp add: frames_of_eq frames_of_Nil bytes_of_def dropCR_def units)
  have f2: "frames_of (bytes_of ''a'' @ 0x0A # bytes_of ''b'') = Inr [bytes_of ''a'', bytes_of ''b'']"
    by (simp add: frames_of_eq frames_of_Nil bytes_of_def dropCR_def units)
  show ?thesis
    using step stop all
    by (simp add: NewNewlineDelimitedChunkReader_def ReadAllFrames_single ReadAllFrames_lineReader
        f1 f2)
qed

section \<open>Properties of the length-prefixed frames\<close>

lemma uvarint_not_Nil: "uvarint x \<noteq> []"
  by (subst uvarint.simps) simp

lemma PutUvarint_loop_eq:
  "PutUvarint_loop buf x i =
     (if i + length (uvarint x) \<le> length buf
      then Inr (take i buf @ uvarint x @ drop (i + length (uvarint x)) buf, i + length (uvarint x))
      else Inl Panic)"
proof (induction buf x i rule: PutUvarint_loop.induct)
  case (1 buf x i)
  show ?case
  proof (cases "0x80 \<le> x")
    case True
    note big = True
    have u: "uvarint x = (ucast x OR 0x80) # uvarint (drop_bit 7 x)"
      using True by (subst uvarint.simps) simp
    show ?thesis
    proof (cases "i < length buf")
      case True
      have t: "take (Suc i) (buf[i := ucast x OR 0x80]) = take i buf @ [ucast x OR 0x80]"
        using True by (simp add: take_Suc_conv_app_nth)
      show ?thesis
        using True big 1[OF big True] t
        by (subst PutUvarint_loop.simps) (simp add: u)
    next
      case False
      then show ?thesis
        using big by (subst PutUvarint_loop.simps) (simp add: u)
    qed
  next
    case False
    have u: "uvarint x = [ucast x]"
      using False by (subst uvarint.simps) simp
    show ?thesis
      using False
      by (subst PutUvarint_loop.simps) (simp add: u upd_conv_take_nth_drop)
  qed
qed

lemma length_uvarint: "unat x < 2 ^ (7 * Suc k) \<Longrightarrow> length (uvarint x) \<le> Suc k"
proof (induction k arbitrary: x)
  case 0
  then have "\<not> 0x80 \<le> x"
    by (simp add: word_le_nat_alt)
  then show ?case
    by (subst uvarint.simps) simp
next
  case (Suc k)
  show ?case
  proof (cases "0x80 \<le> x")
    case True
    have "unat (drop_bit 7 x) = unat x div 2 ^ 7"
      by (simp add: drop_bit_eq_div unat_div)
    moreover have "unat x div 2 ^ 7 < 2 ^ (7 * Suc k)"
      using Suc.prems by (simp add: less_mult_imp_div_less power_add)
    ultimately have "length (uvarint (drop_bit 7 x)) \<le> Suc k"
      using Suc.IH by simp
    then show ?thesis
      using True by (subst uvarint.simps) simp
  next
    case False
    then show ?thesis
      by (subst uvarint.simps) simp
  qed
qed

lemma bit_7f: "bit (0x7f :: byte) n \<longleftrightarrow> n < 7"
proof -
  have "(0x7f::byte) = mask 7" by (simp add: mask_eq_exp_minus_1)
  then show ?thesis by (simp only: bit_mask_iff) auto
qed

lemma bit_80: "bit (0x80 :: byte) n \<longleftrightarrow> n = 7"
proof -
  have "(0x80::byte) = 2 ^ 7" by simp
  then show ?thesis by (simp only: bit_exp_iff) (auto simp: possible_bit_def)
qed

lemma low7: "(ucast (((ucast (x :: 64 word) :: byte) OR 0x80) AND 0x7f) :: 64 word) = take_bit 7 x"
  by (rule bit_word_eqI) (auto simp: bit_simps bit_7f bit_80 simp del: bit_numeral_word_iff)

lemma split7: "take_bit 7 (x :: 64 word) OR push_bit 7 (drop_bit 7 x) = x"
proof (rule bit_word_eqI)
  fix n assume "n < LENGTH(64)"
  then show "bit (take_bit 7 x OR push_bit 7 (drop_bit 7 x)) n = bit x n"
    by (cases "n < 7") (auto simp: bit_simps)
qed

lemma high_bit_set: "\<not> ((ucast (x :: 64 word) :: byte) OR 0x80) < 0x80"
  using le_word_or2[of "0x80::byte" "ucast x"] by (simp add: or.commute)

lemma small_byte:
  assumes "\<not> 0x80 \<le> (x :: 64 word)"
  shows "(ucast x :: byte) < 0x80 \<and> (ucast (ucast x :: byte) :: 64 word) = x"
proof -
  have x: "unat x < 128"
    using assms by (simp add: word_le_nat_alt)
  have u: "unat (ucast x :: byte) = unat x"
    using x by (simp add: unsigned_ucast_eq take_bit_nat_eq_self)
  have "(ucast x :: byte) < 0x80"
    using x u by (simp add: word_less_nat_alt)
  moreover have "unat (ucast (ucast x :: byte) :: 64 word) = unat x"
    using u by (simp add: unsigned_ucast_eq unsigned_take_bit_eq)
  then have "(ucast (ucast x :: byte) :: 64 word) = x"
    by (simp add: word_unat_eq_iff)
  ultimately show ?thesis by simp
qed

lemma ReadByte_Cons:
  "ReadByte \<lparr>pending = b # bs, fault = f\<rparr> = (Inr b, \<lparr>pending = bs, fault = f\<rparr>)"
  by (simp add: ReadByte_def)

lemma ReadUvarint_loop_uvarint:
  "i + length (uvarint x) < MaxVarintLen64 \<Longrightarrow>
   ReadUvarint_loop \<lparr>pending = uvarint x @ rest, fault = f\<rparr> acc sh i
     = ((acc OR push_bit sh x, None), \<lparr>pending = rest, fault = f\<rparr>)"
proof (induction x arbitrary: acc sh i rule: uvarint.induct)
  case (1 x)
  have i: "i < MaxVarintLen64" "i \<noteq> MaxVarintLen64 - 1"
    using "1.prems" uvarint_not_Nil[of x] by (cases "uvarint x"; simp)+
  show ?case
  proof (cases "0x80 \<le> x")
    case True
    have u: "uvarint x = (ucast x OR 0x80) # uvarint (drop_bit 7 x)"
      using True by (subst uvarint.simps) simp
    have len: "(i + 1) + length (uvarint (drop_bit 7 x)) < MaxVarintLen64"
      using "1.prems" u by simp
    have "(acc OR push_bit sh (take_bit 7 x)) OR push_bit (sh + 7) (drop_bit 7 x)
        = acc OR push_bit sh (take_bit 7 x OR push_bit 7 (drop_bit 7 x))"
      by (simp add: push_bit_add or.assoc push_bit_or add.commute)
    then have v: "(acc OR push_bit sh (take_bit 7 x)) OR push_bit (sh + 7) (drop_bit 7 x)
        = acc OR push_bit sh x"
      by (simp only: split7)
    show ?thesis
      using i "1.IH"[OF True len, of "acc OR push_bit sh (take_bit 7 x)" "sh + 7"] v
      by (subst ReadUvarint_loop.simps) (simp add: u ReadByte_Cons high_bit_set low7)
  next
    case False
    have u: "uvarint x = [ucast x]"
      using False by (subst uvarint.simps) simp
    show ?thesis
      using i small_byte[OF False]
      by (subst ReadUvarint_loop.simps) (simp add: u ReadByte_Cons)
  qed
qed

lemma ReadUvarint_uvarint:
  "length (uvarint x) < MaxVarintLen64 \<Longrightarrow>
   ReadUvarint \<lparr>pending = uvarint x @ rest, fault = f\<rparr> = ((x, None), \<lparr>pending = rest, fault = f\<rparr>)"
  using ReadUvarint_loop_uvarint[of 0 x rest f 0 0] by (simp add: ReadUvarint_def)

lemma ReadUvarint_empty:
  "ReadUvarint \<lparr>pending = [], fault = f\<rparr>
     = ((0, Some (case f of None \<Rightarrow> EOF | Some e \<Rightarrow> e)), \<lparr>pending = [], fault = f\<rparr>)"
  by (simp add: ReadUvarint_def ReadUvarint_loop.simps ReadByte_def Read_err_def MaxVarintLen64_def)

lemma unat_length: "length p < 2 ^ 35 \<Longrightarrow> unat (of_nat (length p) :: 64 word) = length p"
  by (simp add: unat_of_nat)

lemma length_uvarint_payload:
  assumes "length p < 2 ^ 35"
  shows "length (uvarint (of_nat (length p))) \<le> 5"
  using length_uvarint[of "of_nat (length p)" 4] assms by (simp add: unat_length)

lemma varLenWriter_Write_ok:
  assumes "length b = MaxVarintLen32" and "length p < 2 ^ 35"
  shows "\<exists>b'. length b' = MaxVarintLen32
       \<and> varLenWriter_Write \<lparr>vw = \<lparr>written = w, limit = None\<rparr>, vbuf = b\<rparr> p
         = Inr ((length (frame_bytes p), None),
                \<lparr>vw = \<lparr>written = w @ frame_bytes p, limit = None\<rparr>, vbuf = b'\<rparr>)"
proof -
  let ?u = "uvarint (of_nat (length p))"
  have k: "length ?u \<le> length b"
    using length_uvarint_payload[OF assms(2)] assms(1) by (simp add: MaxVarintLen32_def)
  have put: "PutUvarint b (of_nat (length p)) = Inr (?u @ drop (length ?u) b, length ?u)"
    using k by (simp add: PutUvarint_def PutUvarint_loop_eq)
  have "varLenWriter_Write \<lparr>vw = \<lparr>written = w, limit = None\<rparr>, vbuf = b\<rparr> p
         = Inr ((length (frame_bytes p), None),
                \<lparr>vw = \<lparr>written = w @ frame_bytes p, limit = None\<rparr>, vbuf = ?u @ drop (length ?u) b\<rparr>)"
    by (simp add: varLenWriter_Write_def put Writer_Write_def frame_bytes_def)
  moreover have "length (?u @ drop (length ?u) b) = MaxVarintLen32"
    using k assms(1) by simp
  ultimately show ?thesis by blast
qed

lemma varLenReader_Read_ok:
  assumes "length p < 2 ^ 35"
  shows "varLenReader_Read \<lparr>bufReader = \<lparr>pending = frame_bytes p @ rest, fault = f\<rparr>, bufcap = c\<rparr>
     = Inr (p, \<lparr>bufReader = \<lparr>pending = rest, fault = f\<rparr>, bufcap = max c (length p)\<rparr>)"
proof -
  let ?x = "of_nat (length p) :: 64 word"
  have "length (uvarint ?x) < MaxVarintLen64"
    using length_uvarint_payload[OF assms] by (simp add: MaxVarintLen64_def)
  then have r: "ReadUvarint \<lparr>pending = uvarint ?x @ p @ rest, fault = f\<rparr>
      = ((?x, None), \<lparr>pending = p @ rest, fault = f\<rparr>)"
    by (rule ReadUvarint_uvarint)
  have u: "unat ?x = length p" "uint ?x = int (length p)"
    using unat_length[OF assms] by (simp_all add: uint_nat)
  have m: "make_bytes (int (length p)) = Inr (length p)"
    using assms by (intro make_bytes_ok) (simp add: maxAlloc_def)
  show ?thesis
    by (auto simp: varLenReader_Read_def frame_bytes_def r u m ReadFull_def max_def)
qed

lemma write_frames_ok:
  assumes "\<forall>p\<in>set ps. length p < 2 ^ 35" and "length b = MaxVarintLen32"
  shows "\<exists>b'. length b' = MaxVarintLen32
       \<and> write_frames \<lparr>vw = \<lparr>written = w, limit = None\<rparr>, vbuf = b\<rparr> ps
         = Inr (None, \<lparr>vw = \<lparr>written = w @ concat (map frame_bytes ps), limit = None\<rparr>, vbuf = b'\<rparr>)"
  using assms
proof (induction ps arbitrary: w b)
  case Nil
  then show ?case by simp
next
  case (Cons p ps)
  then obtain b1 where b1: "length b1 = MaxVarintLen32"
    "varLenWriter_Write \<lparr>vw = \<lparr>written = w, limit = None\<rparr>, vbuf = b\<rparr> p
         = Inr ((length (frame_bytes p), None),
                \<lparr>vw = \<lparr>written = w @ frame_bytes p, limit = None\<rparr>, vbuf = b1\<rparr>)"
    using varLenWriter_Write_ok[of b p w] by auto
  from Cons.IH[of b1 "w @ frame_bytes p"] Cons.prems b1(1)
  obtain b' where "length b' = MaxVarintLen32"
    "write_frames \<lparr>vw = \<lparr>written = w @ frame_bytes p, limit = None\<rparr>, vbuf = b1\<rparr> ps
         = Inr (None, \<lparr>vw = \<lparr>written = (w @ frame_bytes p) @ concat (map frame_bytes ps), limit = None\<rparr>, vbuf = b'\<rparr>)"
    by auto
  then show ?case
    using b1(2) by (intro exI[of _ b']) simp
qed

lemma varLenReader_Read_eof:
  "varLenReader_Read \<lparr>bufReader = \<lparr>pending = [], fault = None\<rparr>, bufcap = c\<rparr> = Inl (Error EOF)"
  by (simp add: varLenReader_Read_def ReadUvarint_empty)

lemma ReadAllFrames_loop_varLen:
  assumes "\<forall>p\<in>set ps. length p < 2 ^ 35"
  shows "ReadAllFrames_loop varLenReader_Read
           \<lparr>bufReader = \<lparr>pending = concat (map frame_bytes ps), fault = None\<rparr>, bufcap = c\<rparr> acc
         = Some (Inr (acc @ ps))"
  using assms
proof (induction ps arbitrary: acc c)
  case Nil
  then show ?case
    by (subst ReadAllFrames_loop.simps) (simp add: varLenReader_Read_eof)
next
  case (Cons p ps)
  have "varLenReader_Read \<lparr>bufReader = \<lparr>pending = frame_bytes p @ concat (map frame_bytes ps), fault = None\<rparr>, bufcap = c\<rparr>
     = Inr (p, \<lparr>bufReader = \<lparr>pending = concat (map frame_bytes ps), fault = None\<rparr>, bufcap = max c (length p)\<rparr>)"
    using Cons.prems by (intro varLenReader_Read_ok) simp
  then show ?case
    using Cons.IH[of "max c (length p)" "acc @ [p]"] Cons.prems
    by (subst ReadAllFrames_loop.simps) simp
qed

lemma varlen_round_trip:
  assumes "\<forall>p\<in>set ps. length p < 2 ^ 35"
  shows "\<exists>fw. write_frames (NewVarLenFrameWriter \<lparr>written = [], limit = None\<rparr>) ps = Inr (None, fw)
       \<and> ReadAllFrames varLenReader_Read
           (NewVarLenFrameReader \<lparr>pending = written (vw fw), fault = None\<rparr>) = Some (Inr ps)"
proof -
  obtain b' where "write_frames \<lparr>vw = \<lparr>written = [], limit = None\<rparr>, vbuf = replicate MaxVarintLen32 0\<rparr> ps
         = Inr (None, \<lparr>vw = \<lparr>written = [] @ concat (map frame_bytes ps), limit = None\<rparr>, vbuf = b'\<rparr>)"
    using write_frames_ok[OF assms, of "replicate MaxVarintLen32 0" "[]"] by auto
  then show ?thesis
    using ReadAllFrames_loop_varLen[OF assms, of varlenFrameReaderBufferSize "[]"]
    by (simp add: NewVarLenFrameWriter_def NewVarLenFrameReader_def ReadAllFrames_def)
qed

text \<open>
  C5 fails on the code. The writer encodes the length into an array of
  \<^verbatim>\<open>binary.MaxVarintLen32\<close> = 5 bytes, which holds the varint of a length below 2^35
  only: for a payload of 2^35 bytes \<^verbatim>\<open>binary.PutUvarint\<close> needs a sixth byte and the
  index into the array panics, where the comment of \<^verbatim>\<open>NewVarLenFrameWriter\<close> promises
  a \<^verbatim>\<open>uint64\<close> size and the reader decodes one. For payloads shorter than 2^35 bytes
  the round trip holds (lemma \<open>varlen_round_trip\<close> above).
\<close>

theorem varLenWriter_Write_panics:
  "varLenWriter_Write (NewVarLenFrameWriter \<lparr>written = [], limit = None\<rparr>) (replicate (2 ^ 35) 0)
     = Inl Panic"
  by (simp add: varLenWriter_Write_def NewVarLenFrameWriter_def PutUvarint_def MaxVarintLen32_def
      PutUvarint_loop.simps)

lemma varLenReader_Read_truncated:
  assumes "ReadUvarint (bufReader fr) = ((n, None), s')" and "unat n \<le> maxAlloc"
    and "length (pending s') < unat n" and "fault s' = None"
  shows "varLenReader_Read fr = Inl (Error ErrUnexpectedEOF)"
proof -
  have "uint n \<le> int maxAlloc"
    using assms(2) by (metis of_nat_le_iff uint_nat)
  then have "make_bytes (uint n) = Inr (unat n)"
    by (simp add: make_bytes_def)
  then show ?thesis
    using assms
    by (simp add: varLenReader_Read_def ReadFull_def Read_err_def)
qed

text \<open>
  C6 fails on the code. At the end of input before a length prefix \<^verbatim>\<open>Read\<close> returns
  \<^verbatim>\<open>io.EOF\<close> (lemma \<open>varLenReader_Read_eof\<close>), and a payload cut short gives
  \<^verbatim>\<open>io.ErrUnexpectedEOF\<close> when the declared length can be allocated (lemma
  \<open>varLenReader_Read_truncated\<close>). But \<^verbatim>\<open>Read\<close> allocates the declared length before it
  reads: the ten bytes below declare a payload of 2^64 - 1 bytes, more than remain, and
  \<^verbatim>\<open>make\<close> panics where the claim has the truncation error.
\<close>

theorem varLenReader_Read_panics:
  "ReadUvarint \<lparr>pending = [0xFF, 0xFF, 0xFF, 0xFF, 0xFF, 0xFF, 0xFF, 0xFF, 0xFF, 0x01], fault = None\<rparr>
     = ((0xFFFFFFFFFFFFFFFF, None), \<lparr>pending = [], fault = None\<rparr>)
   \<and> varLenReader_Read
       (NewVarLenFrameReader
          \<lparr>pending = [0xFF, 0xFF, 0xFF, 0xFF, 0xFF, 0xFF, 0xFF, 0xFF, 0xFF, 0x01], fault = None\<rparr>)
     = Inl Panic"
proof -
  have r: "ReadUvarint \<lparr>pending = [0xFF, 0xFF, 0xFF, 0xFF, 0xFF, 0xFF, 0xFF, 0xFF, 0xFF, 0x01], fault = None\<rparr>
     = ((0xFFFFFFFFFFFFFFFF, None), \<lparr>pending = [], fault = None\<rparr>)"
    by (simp add: ReadUvarint_def ReadUvarint_loop.simps ReadByte_def MaxVarintLen64_def)
  show ?thesis
    by (simp add: r varLenReader_Read_def NewVarLenFrameReader_def varlenFrameReaderBufferSize_def
        make_bytes_def maxAlloc_def)
qed

section \<open>Properties of the closers\<close>

lemma Close_each_recording_from:
  "Close_each (recording_from i closers) (w, calls) = (res, (w', calls')) \<Longrightarrow>
     (res = None \<longrightarrow> calls' = calls @ [i..<i + length closers] \<and> Close_each closers w = (None, w'))
   \<and> (\<forall>e. res = Some e \<longrightarrow>
         (\<exists>j<length closers. calls' = calls @ [i..<i + Suc j]
            \<and> Close_each closers w = (Some e, w')
            \<and> (\<exists>wj. Close_each (take j closers) w = (None, wj) \<and> (closers ! j) wj = (Some e, w'))))"
proof (induction closers arbitrary: i w calls)
  case Nil
  then show ?case by simp
next
  case (Cons c rest)
  obtain r1 w1 where c: "c w = (r1, w1)" by (cases "c w")
  show ?case
  proof (cases r1)
    case (Some e1)
    then have "res = Some e1" "w' = w1" "calls' = calls @ [i]"
      using Cons.prems c by (simp_all add: recording_def)
    then show ?thesis
      using c Some by (auto intro!: exI[of _ 0])
  next
    case None
    then have run: "Close_each (recording_from (Suc i) rest) (w1, calls @ [i]) = (res, (w', calls'))"
      using Cons.prems c by (simp add: recording_def)
    note IH = Cons.IH[OF run]
    have upt: "\<And>k. calls @ [i] @ [Suc i..<Suc i + k] = calls @ [i..<i + Suc k]"
      by (simp add: upt_rec[of i])
    show ?thesis
    proof (intro conjI impI allI)
      assume "res = None"
      then show "calls' = calls @ [i..<i + length (c # rest)]"
        using IH upt[of "length rest"] by simp
      show "Close_each (c # rest) w = (None, w')"
        using IH \<open>res = None\<close> c None by simp
    next
      fix e assume "res = Some e"
      then obtain j wj where j: "j < length rest" "calls' = (calls @ [i]) @ [Suc i..<Suc i + Suc j]"
        "Close_each rest w1 = (Some e, w')"
        "Close_each (take j rest) w1 = (None, wj)" "(rest ! j) wj = (Some e, w')"
        using IH by blast
      show "\<exists>j<length (c # rest). calls' = calls @ [i..<i + Suc j]
            \<and> Close_each (c # rest) w = (Some e, w')
            \<and> (\<exists>wj. Close_each (take j (c # rest)) w = (None, wj) \<and> ((c # rest) ! j) wj = (Some e, w'))"
        using j c None upt[of "Suc j"]
        by (intro exI[of _ "Suc j"]) auto
    qed
  qed
qed

lemma upt_shift: "[k..<Suc (k + n)] = k # [Suc k..<Suc (k + n)]"
  by (simp add: upt_conv_Cons del: upt_Suc)

lemma Close_each_recording_all:
  "(\<forall>j<length closers. fst ((closers ! j) (worlds closers w ! j)) = None) \<Longrightarrow>
   Close_each (recording_from k closers) (w, calls)
     = (None, (worlds closers w ! length closers, calls @ [k..<k + length closers]))"
proof (induction closers arbitrary: k w calls)
  case Nil
  then show ?case by simp
next
  case (Cons c rest)
  have c: "fst (c w) = None"
    using Cons.prems by (auto dest: spec[of _ 0])
  have "\<forall>j<length rest. fst ((rest ! j) (worlds rest (snd (c w)) ! j)) = None"
  proof (intro allI impI)
    fix j assume "j < length rest"
    then show "fst ((rest ! j) (worlds rest (snd (c w)) ! j)) = None"
      using Cons.prems by (auto dest!: spec[of _ "Suc j"])
  qed
  from Cons.IH[OF this, of "Suc k" "calls @ [k]"] show ?case
    using c by (cases "c w") (simp add: recording_def upt_shift del: upt_Suc)
qed

lemma Close_each_recording_first_failure:
  "j < length closers \<Longrightarrow> fst ((closers ! j) (worlds closers w ! j)) = Some e \<Longrightarrow>
   (\<forall>i<j. fst ((closers ! i) (worlds closers w ! i)) = None) \<Longrightarrow>
   Close_each (recording_from k closers) (w, calls)
     = (Some e, (snd ((closers ! j) (worlds closers w ! j)), calls @ [k..<k + Suc j]))"
proof (induction closers arbitrary: j k w calls)
  case Nil
  then show ?case by simp
next
  case (Cons c rest)
  show ?case
  proof (cases j)
    case 0
    then show ?thesis
      using Cons.prems by (cases "c w") (simp add: recording_def)
  next
    case (Suc j')
    have c: "fst (c w) = None"
      using Cons.prems(3) Suc by (auto dest: spec[of _ 0])
    have j': "j' < length rest" "fst ((rest ! j') (worlds rest (snd (c w)) ! j')) = Some e"
      using Cons.prems(1,2) Suc by simp_all
    have "\<forall>i<j'. fst ((rest ! i) (worlds rest (snd (c w)) ! i)) = None"
    proof (intro allI impI)
      fix i assume "i < j'"
      then show "fst ((rest ! i) (worlds rest (snd (c w)) ! i)) = None"
        using Cons.prems(3) Suc by (auto dest!: spec[of _ "Suc i"])
    qed
    from Cons.IH[OF j' this, of "Suc k" "calls @ [k]"] show ?thesis
      using c Suc upt_conv_Cons[of k "Suc (Suc (k + j'))"]
      by (cases "c w") (simp add: recording_def del: upt_Suc)
  qed
qed

lemma Close_each_recording_plain:
  "Close_each (recording_from k closers) (w, calls) = (res, (w', calls')) \<Longrightarrow>
   Close_each closers w = (res, w')"
  using Close_each_recording_from[of k closers w calls res w' calls'] by (cases res) auto

text \<open>
  C8: for every ordered list of closers, \<^verbatim>\<open>Close\<close> on the chained closer invokes the
  closers in the declared order and stops at the first failure. With closers that record
  their invocation: when no closer fails, \<^verbatim>\<open>Close\<close> returns success and the closers
  invoked are all of them, in order; when closer \<open>j\<close> fails with \<open>e\<close> and every closer
  before it succeeds, \<^verbatim>\<open>Close\<close> returns \<open>e\<close>, the closers invoked are exactly
  \<open>0, \<dots>, j\<close> in order, so that no closer after \<open>j\<close> is invoked, and the world is the
  one closer \<open>j\<close> leaves. The chain of the plain closers returns the same result and
  world.
\<close>

theorem chainedCloser_Close_order:
  "((\<forall>j<length closers. fst ((closers ! j) (worlds closers w ! j)) = None) \<longrightarrow>
       chainedCloser_Close (NewChainedCloser wr (recording_from 0 closers)) (w, [])
         = (None, (worlds closers w ! length closers, [0..<length closers]))
     \<and> chainedCloser_Close (NewChainedCloser wr closers) w
         = (None, worlds closers w ! length closers))
   \<and> (\<forall>j e. j < length closers \<and> fst ((closers ! j) (worlds closers w ! j)) = Some e
          \<and> (\<forall>i<j. fst ((closers ! i) (worlds closers w ! i)) = None) \<longrightarrow>
       chainedCloser_Close (NewChainedCloser wr (recording_from 0 closers)) (w, [])
         = (Some e, (snd ((closers ! j) (worlds closers w ! j)), [0..<Suc j]))
     \<and> chainedCloser_Close (NewChainedCloser wr closers) w
         = (Some e, snd ((closers ! j) (worlds closers w ! j))))"
proof (intro conjI impI allI)
  assume ok: "\<forall>j<length closers. fst ((closers ! j) (worlds closers w ! j)) = None"
  have run: "Close_each (recording_from 0 closers) (w, [])
      = (None, (worlds closers w ! length closers, [] @ [0..<0 + length closers]))"
    using ok by (rule Close_each_recording_all)
  show "chainedCloser_Close (NewChainedCloser wr (recording_from 0 closers)) (w, [])
         = (None, (worlds closers w ! length closers, [0..<length closers]))"
    using run by (simp add: chainedCloser_Close_def NewChainedCloser_def)
  show "chainedCloser_Close (NewChainedCloser wr closers) w
         = (None, worlds closers w ! length closers)"
    using Close_each_recording_plain[OF run]
    by (simp add: chainedCloser_Close_def NewChainedCloser_def)
next
  fix j e
  assume f: "j < length closers \<and> fst ((closers ! j) (worlds closers w ! j)) = Some e
          \<and> (\<forall>i<j. fst ((closers ! i) (worlds closers w ! i)) = None)"
  have run: "Close_each (recording_from 0 closers) (w, [])
      = (Some e, (snd ((closers ! j) (worlds closers w ! j)), [] @ [0..<0 + Suc j]))"
    using f by (intro Close_each_recording_first_failure) simp_all
  show "chainedCloser_Close (NewChainedCloser wr (recording_from 0 closers)) (w, [])
         = (Some e, (snd ((closers ! j) (worlds closers w ! j)), [0..<Suc j]))"
    using run by (simp add: chainedCloser_Close_def NewChainedCloser_def)
  show "chainedCloser_Close (NewChainedCloser wr closers) w
         = (Some e, snd ((closers ! j) (worlds closers w ! j)))"
    using Close_each_recording_plain[OF run]
    by (simp add: chainedCloser_Close_def NewChainedCloser_def)
qed

theorem chainedCloser_Close_order_witness:
  "chainedCloser_Close
     (NewChainedCloser ()
        (recording_from 0
           [\<lambda>n. (None, Suc n), \<lambda>n. (Some (Other ''first''), Suc n), \<lambda>n. (Some (Other ''second''), Suc n)]))
     (0 :: nat, []) = (Some (Other ''first''), (2, [0, 1]))
   \<and> chainedCloser_Close
     (NewChainedCloser ()
        (recording_from 0 [\<lambda>n. (None, Suc n), \<lambda>n. (None, Suc n), \<lambda>n. (Some (Other ''last''), Suc n)]))
     (0 :: nat, []) = (Some (Other ''last''), (3, [0, 1, 2]))
   \<and> chainedCloser_Close
     (NewChainedCloser ()
        (recording_from 0 [\<lambda>n. (None, Suc n), \<lambda>n. (None, Suc n), \<lambda>n. (None, Suc n)]))
     (0 :: nat, []) = (None, (3, [0, 1, 2]))
   \<and> chainedCloser_Close
     (NewChainedCloser () [\<lambda>n. (None, Suc n), \<lambda>n. (None, Suc n), \<lambda>n. (Some (Other ''last''), Suc n)])
     (0 :: nat) = (Some (Other ''last''), 3)"
proof -
  let ?mid = "[\<lambda>n::nat. (None :: error option, Suc n), \<lambda>n. (Some (Other ''first''), Suc n),
               \<lambda>n. (Some (Other ''second''), Suc n)]"
  let ?last = "[\<lambda>n::nat. (None :: error option, Suc n), \<lambda>n. (None, Suc n),
                \<lambda>n. (Some (Other ''last''), Suc n)]"
  let ?none = "[\<lambda>n::nat. (None :: error option, Suc n), \<lambda>n. (None, Suc n), \<lambda>n. (None, Suc n)]"
  have m: "(1::nat) < length ?mid \<and> fst ((?mid ! 1) (worlds ?mid 0 ! 1)) = Some (Other ''first'')
      \<and> (\<forall>i<1. fst ((?mid ! i) (worlds ?mid 0 ! i)) = None)"
    by simp
  have l: "(2::nat) < length ?last \<and> fst ((?last ! 2) (worlds ?last 0 ! 2)) = Some (Other ''last'')
      \<and> (\<forall>i<2. fst ((?last ! i) (worlds ?last 0 ! i)) = None)"
    by (simp add: less_Suc_eq numeral_2_eq_2)
  have n: "\<forall>j<length ?none. fst ((?none ! j) (worlds ?none 0 ! j)) = None"
    by (simp add: less_Suc_eq)
  have vm: "snd ((?mid ! 1) (worlds ?mid 0 ! 1)) = 2" "[0..<Suc 1] = [0, 1]"
    and vl: "snd ((?last ! 2) (worlds ?last 0 ! 2)) = 3" "[0..<Suc 2] = [0, 1, 2]"
    and vn: "worlds ?none 0 ! length ?none = 3" "[0..<length ?none] = [0, 1, 2]"
    by (simp_all add: upt_rec numeral_2_eq_2)
  have A: "chainedCloser_Close (NewChainedCloser () (recording_from 0 ?mid)) (0, [])
      = (Some (Other ''first''), (snd ((?mid ! 1) (worlds ?mid 0 ! 1)), [0..<Suc 1]))"
    using chainedCloser_Close_order[of ?mid 0 "()"] m by blast
  have B: "chainedCloser_Close (NewChainedCloser () (recording_from 0 ?last)) (0, [])
      = (Some (Other ''last''), (snd ((?last ! 2) (worlds ?last 0 ! 2)), [0..<Suc 2]))"
    and B': "chainedCloser_Close (NewChainedCloser () ?last) 0
      = (Some (Other ''last''), snd ((?last ! 2) (worlds ?last 0 ! 2)))"
    using chainedCloser_Close_order[of ?last 0 "()"] l by blast+
  have C: "chainedCloser_Close (NewChainedCloser () (recording_from 0 ?none)) (0, [])
      = (None, (worlds ?none 0 ! length ?none, [0..<length ?none]))"
    using chainedCloser_Close_order[of ?none 0 "()"] n by blast
  show ?thesis
    using A B B' C unfolding vm vl vn by (intro conjI)
qed

lemma Close_times_done:
  "once c \<Longrightarrow> Close_times n c w = (replicate n (err c), c, w)"
  by (induction n) (simp_all add: closeOnce_Close_def)

text \<open>
  C9: for every underlying closer and every number \<open>n + 1\<close> of successive \<^verbatim>\<open>Close\<close>
  calls on the wrapper \<^verbatim>\<open>SafeCloser\<close> returns, every call returns the result of the
  underlying \<^verbatim>\<open>Close\<close>, which is the result of the first call, and the world is the one
  a single underlying \<^verbatim>\<open>Close\<close> leaves; an underlying closer that records its
  invocations records exactly one.
\<close>

theorem SafeCloser_Close_once:
  "Close_times (Suc n) (SafeCloser c) w =
     (replicate (Suc n) (fst (c w)), \<lparr>closer = c, err = fst (c w), once = True\<rparr>, snd (c w))
   \<and> Close_times (Suc n) (SafeCloser (recording 0 c)) (w, []) =
     (replicate (Suc n) (fst (c w)),
      \<lparr>closer = recording 0 c, err = fst (c w), once = True\<rparr>, (snd (c w), [0]))"
proof -
  have gen: "\<And>(c :: 'b closer) w. Close_times (Suc n) (SafeCloser c) w =
     (replicate (Suc n) (fst (c w)), \<lparr>closer = c, err = fst (c w), once = True\<rparr>, snd (c w))"
    by (simp add: closeOnce_Close_def SafeCloser_def Close_times_done split: prod.splits)
  have gen2: "Close_times (Suc n) (SafeCloser (recording 0 c)) (w, []) =
     (replicate (Suc n) (fst (recording 0 c (w, []))), \<lparr>closer = recording 0 c, err = fst (recording 0 c (w, [])), once = True\<rparr>, snd (recording 0 c (w, [])))"
    by (simp add: closeOnce_Close_def SafeCloser_def Close_times_done split: prod.splits)
  show ?thesis
    using gen[of c w] gen2 by (simp add: recording_def split: prod.splits)
qed

end
